theory Spec2Isabelle
  imports Main "HOL-Library.Word" "HOL-Library.Sublist"
begin

unbundle bit_operations_syntax

section \<open>The secure RTSP control channel of airplay-esp32\<close>

text \<open>
  A shallow embedding of \<^verbatim>\<open>main/rtsp/rtsp_crypto.c\<close> and
  \<^verbatim>\<open>main/rtsp/rtsp_message.c\<close>. Sockets, the heap and the AEAD cipher of
  libsodium are not code of the repository: the socket and the heap are an explicit
  \<open>world\<close> that scripts what \<^verbatim>\<open>recv\<close>, \<^verbatim>\<open>send\<close> and
  \<^verbatim>\<open>malloc\<close> answer, and the cipher is a parameter.
\<close>

subsection \<open>The environment: socket and heap\<close>

type_synonym byte = "8 word"

text \<open>
  What one \<^verbatim>\<open>recv\<close> call meets on the non-blocking socket: a chunk of bytes that
  has arrived, \<^verbatim>\<open>EAGAIN\<close>/\<^verbatim>\<open>EWOULDBLOCK\<close>, another error, or the
  orderly close of the peer. An exhausted script means that nothing has arrived yet.
\<close>

datatype recv_event = Data "byte list" | WouldBlock | HardError | PeerClosed

text \<open>
  \<open>send_script\<close> lists what the next \<^verbatim>\<open>send\<close> calls return (a value
  \<open>\<le> 0\<close> is a failure, a positive one the number of bytes the kernel takes, at most
  what was offered); an exhausted script takes everything. \<open>wire\<close> collects the
  bytes the socket accepted. \<open>malloc_script\<close> says which of the next
  \<^verbatim>\<open>malloc\<close> calls succeed (exhausted: all do), \<open>mallocs\<close> counts the calls
  and \<open>live_blocks\<close> the blocks allocated and not yet freed.
\<close>

record world =
  recv_script :: "recv_event list"
  send_script :: "int list"
  wire :: "byte list"
  malloc_script :: "bool list"
  mallocs :: nat
  live_blocks :: nat

datatype recv_result = Got "byte list" | Again | Failed | Closed

text \<open>\<^verbatim>\<open>recv(socket, p, n, 0)\<close>: \<open>Got bs\<close> is \<open>r = length bs > 0\<close>,
  \<open>Closed\<close> is \<open>r = 0\<close>, \<open>Again\<close> and \<open>Failed\<close> are \<open>r < 0\<close>.\<close>

definition recv :: "world \<Rightarrow> nat \<Rightarrow> recv_result \<times> world" where
  "recv w n =
     (case recv_script w of
        [] \<Rightarrow> (Again, w)
      | Data bs # es \<Rightarrow>
          (if bs = [] \<or> n = 0 then (Closed, w\<lparr>recv_script := es\<rparr>)
           else if length bs \<le> n then (Got bs, w\<lparr>recv_script := es\<rparr>)
           else (Got (take n bs), w\<lparr>recv_script := Data (drop n bs) # es\<rparr>))
      | WouldBlock # es \<Rightarrow> (Again, w\<lparr>recv_script := es\<rparr>)
      | HardError # es \<Rightarrow> (Failed, w\<lparr>recv_script := es\<rparr>)
      | PeerClosed # es \<Rightarrow> (Closed, w\<lparr>recv_script := es\<rparr>))"

text \<open>\<^verbatim>\<open>send(socket, p, n, 0)\<close> of the bytes \<open>bs\<close>.\<close>

definition send :: "world \<Rightarrow> byte list \<Rightarrow> int \<times> world" where
  "send w bs =
     (case send_script w of
        [] \<Rightarrow> (int (length bs), w\<lparr>wire := wire w @ bs\<rparr>)
      | r # rs \<Rightarrow>
          (if r \<le> 0 then (r, w\<lparr>send_script := rs\<rparr>)
           else (int (min (nat r) (length bs)),
                 w\<lparr>send_script := rs, wire := wire w @ take (min (nat r) (length bs)) bs\<rparr>)))"

text \<open>\<^verbatim>\<open>malloc\<close>: whether a block was obtained.\<close>

definition malloc :: "world \<Rightarrow> bool \<times> world" where
  "malloc w =
     (case malloc_script w of
        [] \<Rightarrow> (True, w\<lparr>mallocs := Suc (mallocs w), live_blocks := Suc (live_blocks w)\<rparr>)
      | ok # ms \<Rightarrow>
          (ok, w\<lparr>malloc_script := ms, mallocs := Suc (mallocs w),
                 live_blocks := (if ok then Suc (live_blocks w) else live_blocks w)\<rparr>))"

text \<open>\<^verbatim>\<open>free(p)\<close>: nothing happens for the null pointer.\<close>

definition free :: "world \<Rightarrow> 'a option \<Rightarrow> world" where
  "free w p = (case p of None \<Rightarrow> w | Some _ \<Rightarrow> w\<lparr>live_blocks := live_blocks w - 1\<rparr>)"

text \<open>\<^verbatim>\<open>memcpy(dst + off, src, length src)\<close> on a buffer held as a list.\<close>

definition write_at :: "'a list \<Rightarrow> nat \<Rightarrow> 'a list \<Rightarrow> 'a list" where
  "write_at dst off src = take off dst @ src @ drop (off + length src) dst"

subsection \<open>Connection state\<close>

text \<open>
  The session keys of the pairing subsystem: two 256-bit keys and a 64-bit nonce
  counter for each direction.
\<close>

record hap_session =
  encrypt_key :: "byte list"
  decrypt_key :: "byte list"
  encrypt_nonce :: "64 word"
  decrypt_nonce :: "64 word"

text \<open>\<^verbatim>\<open>conn->crypto_rx\<close>; \<open>encrypted = None\<close> is the null pointer.\<close>

record crypto_rx =
  len_buf :: "byte list"
  len_received :: nat
  block_len :: nat
  encrypted :: "byte list option"
  encrypted_len :: nat
  encrypted_received :: nat

record rtsp_conn =
  hap_session :: "hap_session option"
  encrypted_mode :: bool
  crypto_rx :: crypto_rx

text \<open>
  The AEAD of libsodium (ChaCha20-Poly1305, IETF variant), as a parameter: key, nonce,
  associated data and message give ciphertext and tag; key, nonce, associated data and
  ciphertext with tag give the plaintext, or nothing when authentication fails.
\<close>

record aead =
  aead_encrypt :: "byte list \<Rightarrow> byte list \<Rightarrow> byte list \<Rightarrow> byte list \<Rightarrow> byte list"
  aead_decrypt :: "byte list \<Rightarrow> byte list \<Rightarrow> byte list \<Rightarrow> byte list \<Rightarrow> byte list option"

text \<open>The bytes of a \<^verbatim>\<open>uint64_t\<close> in memory (the ESP32 is little-endian).\<close>

definition le64 :: "64 word \<Rightarrow> byte list" where
  "le64 x = map (\<lambda>i. ucast (drop_bit (8 * i) x)) [0..<8]"

text \<open>\<^verbatim>\<open>uint8_t nonce[12] = {0}; memcpy(nonce + 4, &counter, 8);\<close>\<close>

definition nonce12 :: "64 word \<Rightarrow> byte list" where
  "nonce12 counter = write_at (replicate 12 0) 4 (le64 counter)"

subsection \<open>\<^verbatim>\<open>send_all\<close>\<close>

function send_all :: "world \<Rightarrow> byte list \<Rightarrow> nat \<Rightarrow> int \<times> world" where
  "send_all w dat sent =
     (if sent < length dat then
        (case send w (drop sent dat) of
           (r, w') \<Rightarrow> if r \<le> 0 then (-1, w') else send_all w' dat (sent + nat r))
      else (0, w))"
  by pat_completeness auto
termination
  by (relation "measure (\<lambda>(w, dat, sent). length dat - sent)") auto

subsection \<open>\<^verbatim>\<open>rtsp_crypto_read_block\<close>\<close>

text \<open>
  The loop that fills the 2-byte length header. \<open>Some r\<close> is \<^verbatim>\<open>return r\<close> out of
  the loop, \<open>None\<close> is falling through to the code after it.
\<close>

function recv_len_header :: "crypto_rx \<Rightarrow> world \<Rightarrow> int option \<times> crypto_rx \<times> world" where
  "recv_len_header rx w =
     (if len_received rx < 2 then
        (case recv w (2 - len_received rx) of
           (Got bs, w') \<Rightarrow>
             recv_len_header
               (rx\<lparr>len_buf := write_at (len_buf rx) (len_received rx) bs,
                    len_received := len_received rx + length bs\<rparr>) w'
         | (Again, w') \<Rightarrow> (Some 0, rx, w')
         | (Failed, w') \<Rightarrow> (Some (-1), rx, w')
         | (Closed, w') \<Rightarrow> (Some (-1), rx, w'))
      else (None, rx, w))"
  by pat_completeness auto

lemma recv_Got: "recv w n = (Got bs, w') \<Longrightarrow> 0 < length bs \<and> length bs \<le> n"
  by (auto simp: recv_def split: list.splits recv_event.splits if_splits)

termination recv_len_header
  by (relation "measure (\<lambda>(rx, w). 2 - len_received rx)")
     (auto dest!: recv_Got[OF sym] simp: neq_Nil_conv)

text \<open>
  The ciphertext buffer is obtained once the header is complete and no buffer is held:
  the declared length is decoded, checked, and \<^verbatim>\<open>malloc\<close> is called. The block
  has \<open>encrypted_len\<close> bytes; every one of them is written before it is read.
\<close>

definition decode_block_len :: "byte list \<Rightarrow> nat" where
  "decode_block_len lb = unat ((ucast (lb ! 0) :: 16 word) OR push_bit 8 (ucast (lb ! 1)))"

definition alloc_encrypted ::
  "nat \<Rightarrow> crypto_rx \<Rightarrow> world \<Rightarrow> nat \<Rightarrow> int option \<times> crypto_rx \<times> world" where
  "alloc_encrypted block_max rx w buffer_size =
     (if encrypted rx = None then
        (let bl = decode_block_len (len_buf rx) in
         if bl = 0 \<or> bl > block_max \<or> bl > buffer_size then
           (Some (-1), rx\<lparr>len_received := 0, block_len := 0\<rparr>, w)
         else
           (let rx1 = rx\<lparr>block_len := bl, encrypted_len := bl + 16, encrypted_received := 0\<rparr>
            in case malloc w of
                 (True, w') \<Rightarrow> (None, rx1\<lparr>encrypted := Some (replicate (bl + 16) 0)\<rparr>, w')
               | (False, w') \<Rightarrow>
                   (Some (-1), rx1\<lparr>len_received := 0, block_len := 0, encrypted_len := 0\<rparr>, w')))
      else (None, rx, w))"

text \<open>
  \<^verbatim>\<open>free(conn->crypto_rx.encrypted)\<close> followed by the five assignments that
  clear the partial-read state, as the source repeats them.
\<close>

definition release_rx :: "crypto_rx \<Rightarrow> world \<Rightarrow> crypto_rx \<times> world" where
  "release_rx rx w =
     (rx\<lparr>encrypted := None, len_received := 0, block_len := 0, encrypted_len := 0,
         encrypted_received := 0\<rparr>,
      free w (encrypted rx))"

text \<open>The loop that fills the ciphertext buffer (payload and tag).\<close>

function recv_encrypted :: "crypto_rx \<Rightarrow> world \<Rightarrow> int option \<times> crypto_rx \<times> world" where
  "recv_encrypted rx w =
     (if encrypted_received rx < encrypted_len rx then
        (case recv w (encrypted_len rx - encrypted_received rx) of
           (Got bs, w') \<Rightarrow>
             recv_encrypted
               (rx\<lparr>encrypted := map_option (\<lambda>buf. write_at buf (encrypted_received rx) bs)
                                   (encrypted rx),
                    encrypted_received := encrypted_received rx + length bs\<rparr>) w'
         | (Again, w') \<Rightarrow> (Some 0, rx, w')
         | (Failed, w') \<Rightarrow> (case release_rx rx w' of (rx', w'') \<Rightarrow> (Some (-1), rx', w''))
         | (Closed, w') \<Rightarrow> (case release_rx rx w' of (rx', w'') \<Rightarrow> (Some (-1), rx', w'')))
      else (None, rx, w))"
  by pat_completeness auto
termination
  by (relation "measure (\<lambda>(rx, w). encrypted_len rx - encrypted_received rx)")
     (auto dest!: recv_Got[OF sym] simp: neq_Nil_conv)

text \<open>
  Decryption of the complete buffer into the caller's \<open>buffer\<close>, whose first bytes
  the plaintext overwrites. What libsodium leaves in the buffer when authentication
  fails is not modelled.
\<close>

definition decrypt_block ::
  "aead \<Rightarrow> hap_session \<Rightarrow> crypto_rx \<Rightarrow> world \<Rightarrow> byte list \<Rightarrow> nat
     \<Rightarrow> int \<times> hap_session \<times> crypto_rx \<times> world \<times> byte list" where
  "decrypt_block a sess rx w buffer buffer_size =
     (case aead_decrypt a (decrypt_key sess) (nonce12 (decrypt_nonce sess)) (len_buf rx)
             (case encrypted rx of None \<Rightarrow> [] | Some buf \<Rightarrow> take (encrypted_len rx) buf) of
        None \<Rightarrow> (case release_rx rx w of (rx', w') \<Rightarrow> (-1, sess, rx', w', buffer))
      | Some plaintext \<Rightarrow>
          (case release_rx rx w of
             (rx', w') \<Rightarrow>
               (let sess' = sess\<lparr>decrypt_nonce := decrypt_nonce sess + 1\<rparr>;
                    buffer' = plaintext @ drop (length plaintext) buffer
                in if length plaintext > buffer_size then (-1, sess', rx', w', buffer')
                   else (int (length plaintext), sess', rx', w', buffer'))))"

text \<open>
  The whole function. The result is the returned \<^verbatim>\<open>int\<close>, the world, the
  connection and the caller's buffer after the call.
\<close>

definition rtsp_crypto_read_block ::
  "nat \<Rightarrow> aead \<Rightarrow> world \<Rightarrow> rtsp_conn option \<Rightarrow> byte list \<Rightarrow> nat
     \<Rightarrow> int \<times> world \<times> rtsp_conn option \<times> byte list" where
  "rtsp_crypto_read_block block_max a w conn buffer buffer_size =
     (case conn of
        None \<Rightarrow> (-1, w, conn, buffer)
      | Some c \<Rightarrow>
          (case hap_session c of
             None \<Rightarrow> (-1, w, conn, buffer)
           | Some sess \<Rightarrow>
               if \<not> encrypted_mode c then (-1, w, conn, buffer)
               else
                 (case recv_len_header (crypto_rx c) w of
                    (Some r, rx1, w1) \<Rightarrow> (r, w1, Some (c\<lparr>crypto_rx := rx1\<rparr>), buffer)
                  | (None, rx1, w1) \<Rightarrow>
                      (case alloc_encrypted block_max rx1 w1 buffer_size of
                         (Some r, rx2, w2) \<Rightarrow> (r, w2, Some (c\<lparr>crypto_rx := rx2\<rparr>), buffer)
                       | (None, rx2, w2) \<Rightarrow>
                           (case recv_encrypted rx2 w2 of
                              (Some r, rx3, w3) \<Rightarrow>
                                (r, w3, Some (c\<lparr>crypto_rx := rx3\<rparr>), buffer)
                            | (None, rx3, w3) \<Rightarrow>
                                (case decrypt_block a sess rx3 w3 buffer buffer_size of
                                   (r, sess', rx4, w4, buffer') \<Rightarrow>
                                     (r, w4,
                                      Some (c\<lparr>hap_session := Some sess', crypto_rx := rx4\<rparr>),
                                      buffer')))))))"

subsection \<open>\<^verbatim>\<open>rtsp_crypto_write_frame\<close>\<close>

text \<open>The two header bytes written for a \<^verbatim>\<open>uint16_t block_len\<close>.\<close>

definition len_header :: "16 word \<Rightarrow> byte list" where
  "len_header bl = [ucast (bl AND 0xFF), ucast (drop_bit 8 bl AND 0xFF)]"

text \<open>
  The loop over the chunks, from \<open>offset\<close> on. The loop need not end (a block
  maximum that is 0 modulo \<open>2 ^ 16\<close> makes no progress), so it is a partial function:
  \<open>None\<close> is not returning.
\<close>

partial_function (option) write_frames ::
  "nat \<Rightarrow> aead \<Rightarrow> byte list \<Rightarrow> nat \<Rightarrow> world \<Rightarrow> hap_session
     \<Rightarrow> (int \<times> world \<times> hap_session) option" where
  [code]: "write_frames block_max a dat offset w sess =
     (if offset < length dat then
        (let bl = (of_nat (if length dat - offset > block_max then block_max
                          else length dat - offset) :: 16 word);
             lb = len_header bl;
             nonce = nonce12 (encrypt_nonce sess);
             enc_len = unat bl + 16
         in case malloc w of
              (ok, w1) \<Rightarrow>
                if \<not> ok then Some (-1, w1, sess)
                else
                (let ct = aead_encrypt a (encrypt_key sess) nonce lb
                            (take (unat bl) (drop offset dat))
                 in if length ct \<noteq> enc_len then Some (-1, free w1 (Some ct), sess)
                    else
                      (case send_all w1 lb 0 of
                         (r1, w2) \<Rightarrow>
                           if r1 \<noteq> 0 then Some (-1, free w2 (Some ct), sess)
                           else
                             (case send_all w2 ct 0 of
                                (r2, w3) \<Rightarrow>
                                  if r2 \<noteq> 0 then Some (-1, free w3 (Some ct), sess)
                                  else
                                    write_frames block_max a dat (offset + unat bl)
                                      (free w3 (Some ct))
                                      (sess\<lparr>encrypt_nonce := encrypt_nonce sess + 1\<rparr>)))))
      else Some (0, w, sess))"

definition rtsp_crypto_write_frame ::
  "nat \<Rightarrow> aead \<Rightarrow> world \<Rightarrow> rtsp_conn option \<Rightarrow> byte list
     \<Rightarrow> (int \<times> world \<times> rtsp_conn option) option" where
  "rtsp_crypto_write_frame block_max a w conn dat =
     (case conn of
        None \<Rightarrow> Some (-1, w, conn)
      | Some c \<Rightarrow>
          (case hap_session c of
             None \<Rightarrow> Some (-1, w, conn)
           | Some sess \<Rightarrow>
               if \<not> encrypted_mode c then Some (-1, w, conn)
               else
                 (case write_frames block_max a dat 0 w sess of
                    None \<Rightarrow> None
                  | Some (r, w', sess') \<Rightarrow>
                      Some (r, w', Some (c\<lparr>hap_session := Some sess'\<rparr>)))))"

subsection \<open>What the claims assume of the cipher, and a cipher to run the model on\<close>

text \<open>
  libsodium's contract: the ciphertext is 16 bytes (the tag) longer than the message,
  and decrypting what was encrypted under the same key, nonce and associated data
  gives the message back.
\<close>

definition aead_correct :: "aead \<Rightarrow> bool" where
  "aead_correct a =
     (\<forall>k n ad m. length (aead_encrypt a k n ad m) = length m + 16 \<and>
                 aead_decrypt a k n ad (aead_encrypt a k n ad m) = Some m)"

definition encrypt_lengths :: "aead \<Rightarrow> bool" where
  "encrypt_lengths a = (\<forall>k n ad m. length (aead_encrypt a k n ad m) = length m + 16)"

text \<open>A plaintext that comes out of decryption is 16 bytes shorter than what went in.\<close>

definition aead_lengths :: "aead \<Rightarrow> bool" where
  "aead_lengths a =
     (\<forall>k n ad c p. aead_decrypt a k n ad c = Some p \<longrightarrow> length c = length p + 16)"

text \<open>
  A keyed checksum cipher with the same interface, only to evaluate the model on
  concrete inputs: the pad is the sum of the key and nonce bytes, the tag is 15 zero
  bytes and the sum of key, nonce, associated data and ciphertext.
\<close>

definition xor_pad :: "byte list \<Rightarrow> byte list \<Rightarrow> byte" where
  "xor_pad k n = sum_list (k @ n)"

definition xor_tag :: "byte list \<Rightarrow> byte list \<Rightarrow> byte list \<Rightarrow> byte list \<Rightarrow> byte list" where
  "xor_tag k n ad c = replicate 15 0 @ [sum_list (k @ n @ ad @ c)]"

definition xor_encrypt :: "byte list \<Rightarrow> byte list \<Rightarrow> byte list \<Rightarrow> byte list \<Rightarrow> byte list" where
  "xor_encrypt k n ad m =
     (let c = map (\<lambda>b. b XOR xor_pad k n) m in c @ xor_tag k n ad c)"

definition xor_decrypt ::
  "byte list \<Rightarrow> byte list \<Rightarrow> byte list \<Rightarrow> byte list \<Rightarrow> byte list option" where
  "xor_decrypt k n ad ct =
     (if length ct < 16 then None
      else
        (let c = take (length ct - 16) ct in
         if drop (length ct - 16) ct = xor_tag k n ad c
         then Some (map (\<lambda>b. b XOR xor_pad k n) c) else None))"

definition xor_aead :: aead where
  "xor_aead = \<lparr>aead_encrypt = xor_encrypt, aead_decrypt = xor_decrypt\<rparr>"

text \<open>The state of a connection between two frames, and right after it was set up.\<close>

definition idle_rx :: crypto_rx where
  "idle_rx =
     \<lparr>len_buf = [0, 0], len_received = 0, block_len = 0, encrypted = None,
      encrypted_len = 0, encrypted_received = 0\<rparr>"

definition quiet_world :: world where
  "quiet_world =
     \<lparr>recv_script = [], send_script = [], wire = [], malloc_script = [], mallocs = 0,
      live_blocks = 0\<rparr>"

text \<open>A session and a connection in encrypted mode, to run the model on.\<close>

definition demo_session :: hap_session where
  "demo_session =
     \<lparr>encrypt_key = replicate 32 7, decrypt_key = replicate 32 7, encrypt_nonce = 41,
      decrypt_nonce = 41\<rparr>"

definition demo_conn :: rtsp_conn where
  "demo_conn = \<lparr>hap_session = Some demo_session, encrypted_mode = True, crypto_rx = idle_rx\<rparr>"

text \<open>The next \<^verbatim>\<open>malloc\<close> succeeds; every \<^verbatim>\<open>malloc\<close> and every
  \<^verbatim>\<open>send\<close> to come succeeds.\<close>

definition malloc_ok :: "world \<Rightarrow> bool" where
  "malloc_ok w = (case malloc_script w of [] \<Rightarrow> True | ok # _ \<Rightarrow> ok)"

definition mallocs_ok :: "world \<Rightarrow> bool" where
  "mallocs_ok w = list_all (\<lambda>ok. ok) (malloc_script w)"

definition sends_ok :: "world \<Rightarrow> bool" where
  "sends_ok w = list_all (\<lambda>r. 0 < r) (send_script w)"

text \<open>
  What holds of the partial-read state whenever a ciphertext buffer is held, for a
  caller that passes the capacity \<open>cap\<close>: the header is complete, the block length
  is the declared one, it was checked against \<open>cap\<close>, and the buffer has room for
  the block and its tag.
\<close>

definition rx_inv :: "nat \<Rightarrow> crypto_rx \<Rightarrow> bool" where
  "rx_inv cap rx =
     (case encrypted rx of
        None \<Rightarrow> True
      | Some buf \<Rightarrow>
          2 \<le> len_received rx \<and> block_len rx = decode_block_len (len_buf rx) \<and>
          encrypted_len rx = block_len rx + 16 \<and> length buf = encrypted_len rx \<and>
          0 < block_len rx \<and> block_len rx \<le> cap)"

subsection \<open>The wire format, in the words of the specification\<close>

text \<open>
  A payload is cut into consecutive chunks of at most \<open>n\<close> bytes; a frame is the
  length of the chunk as two little-endian bytes, then the ciphertext with its tag,
  encrypted under the direction's nonce counter with the two length bytes as
  associated data; frame after frame uses the next counter value.
\<close>

function spec_chunks :: "nat \<Rightarrow> 'a list \<Rightarrow> 'a list list" where
  "spec_chunks n xs = (if n = 0 \<or> xs = [] then [] else take n xs # spec_chunks n (drop n xs))"
  by pat_completeness auto
termination
  by (relation "measure (\<lambda>(n, xs). length xs)") auto

definition spec_le16 :: "nat \<Rightarrow> byte list" where
  "spec_le16 n = [of_nat (n mod 256), of_nat (n div 256)]"

definition spec_frame :: "aead \<Rightarrow> byte list \<Rightarrow> 64 word \<Rightarrow> byte list \<Rightarrow> byte list" where
  "spec_frame a key counter chunk =
     spec_le16 (length chunk) @
     aead_encrypt a key (nonce12 counter) (spec_le16 (length chunk)) chunk"

fun spec_frames :: "aead \<Rightarrow> byte list \<Rightarrow> 64 word \<Rightarrow> byte list list \<Rightarrow> byte list" where
  "spec_frames a key counter [] = []"
| "spec_frames a key counter (c # cs) =
     spec_frame a key counter c @ spec_frames a key (counter + 1) cs"

text \<open>
  The cipher returns, for the chunk sent under the counter value \<open>counter\<close>, the
  chunk's length and 16 bytes: the test \<^verbatim>\<open>ct_len != encrypted_len\<close> of the writer
  does not fire.
\<close>

definition tag_added :: "aead \<Rightarrow> byte list \<Rightarrow> 64 word \<Rightarrow> byte list \<Rightarrow> bool" where
  "tag_added a key counter chunk =
     (length (aead_encrypt a key (nonce12 counter) (spec_le16 (length chunk)) chunk) =
      length chunk + 16)"

subsection \<open>Driving the reader\<close>

text \<open>
  The caller's loop, \<open>k\<close> calls one after the other with the same buffer capacity:
  the values returned, and the world, connection and buffer after the last call.
\<close>

fun read_calls ::
  "nat \<Rightarrow> aead \<Rightarrow> nat \<Rightarrow> world \<Rightarrow> rtsp_conn option \<Rightarrow> byte list \<Rightarrow> nat
     \<Rightarrow> int list \<times> world \<times> rtsp_conn option \<times> byte list" where
  "read_calls block_max a 0 w conn buffer buffer_size = ([], w, conn, buffer)"
| "read_calls block_max a (Suc k) w conn buffer buffer_size =
     (case rtsp_crypto_read_block block_max a w conn buffer buffer_size of
        (r, w', conn', buffer') \<Rightarrow>
          (case read_calls block_max a k w' conn' buffer' buffer_size of
             (rs, w'', conn'', buffer'') \<Rightarrow> (r # rs, w'', conn'', buffer'')))"

text \<open>A frame that arrives one byte at a time, with nothing to read in between.\<close>

fun trickle :: "byte list \<Rightarrow> recv_event list" where
  "trickle [] = []"
| "trickle [b] = [Data [b]]"
| "trickle (b # bs) = Data [b] # WouldBlock # trickle bs"

section \<open>RTSP messages (\<^verbatim>\<open>rtsp_message.c\<close>)\<close>

subsection \<open>C strings and the C library\<close>

text \<open>
  Text is a list of \<^typ>\<open>char\<close> (bytes). A C string ends before its first NUL byte;
  a buffer handed to a string function is taken to be followed by a NUL.
\<close>

abbreviation CR :: char where "CR \<equiv> CHR 0x0D"
abbreviation LF :: char where "LF \<equiv> CHR 0x0A"
abbreviation NUL :: char where "NUL \<equiv> CHR 0x00"

definition crlf :: string where
  "crlf = [CR, LF]"

definition cstring :: "string \<Rightarrow> string" where
  "cstring s = takeWhile (\<lambda>c. c \<noteq> NUL) s"

text \<open>\<^verbatim>\<open>isspace\<close>, \<^verbatim>\<open>isdigit\<close> and \<^verbatim>\<open>tolower\<close> in the C locale.\<close>

definition isspace :: "char \<Rightarrow> bool" where
  "isspace c = (let n = (of_char c :: nat) in n = 32 \<or> (9 \<le> n \<and> n \<le> 13))"

definition isdigit :: "char \<Rightarrow> bool" where
  "isdigit c = (let n = (of_char c :: nat) in 48 \<le> n \<and> n \<le> 57)"

definition tolower :: "char \<Rightarrow> char" where
  "tolower c = (let n = (of_char c :: nat) in if 65 \<le> n \<and> n \<le> 90 then char_of (n + 32) else c)"

text \<open>\<^verbatim>\<open>strstr(s, needle)\<close>: the offset of the first occurrence, if any.\<close>

fun strstr :: "string \<Rightarrow> string \<Rightarrow> nat option" where
  "strstr [] needle = (if needle = [] then Some 0 else None)"
| "strstr (c # cs) needle =
     (if prefix needle (c # cs) then Some 0 else map_option Suc (strstr cs needle))"

text \<open>
  \<^verbatim>\<open>strncasecmp(p, key, n) == 0\<close> where \<open>p\<close> has at least \<open>n\<close> characters
  before its end (the caller checks the line length first).
\<close>

definition strncasecmp_eq :: "string \<Rightarrow> string \<Rightarrow> nat \<Rightarrow> bool" where
  "strncasecmp_eq p key n = (map tolower (take n p) = map tolower (take n key))"

text \<open>
  \<^verbatim>\<open>atoi\<close>: leading white space, an optional sign, then decimal digits. The C
  function is undefined when the value does not fit an \<^verbatim>\<open>int\<close>; the model
  computes with unbounded integers.
\<close>

fun digits_value :: "int \<Rightarrow> string \<Rightarrow> int" where
  "digits_value acc [] = acc"
| "digits_value acc (c # cs) =
     (if isdigit c then digits_value (acc * 10 + (of_char c - 48)) cs else acc)"

definition atoi :: "string \<Rightarrow> int" where
  "atoi s =
     (case dropWhile isspace s of
        [] \<Rightarrow> 0
      | c # cs \<Rightarrow>
          if c = CHR ''-'' then - digits_value 0 cs
          else if c = CHR ''+'' then digits_value 0 cs
          else digits_value 0 (c # cs))"

text \<open>
  \<^verbatim>\<open>sscanf(s, "%31s %255s", method, path)\<close>: the number of conversions (-1 for
  \<^verbatim>\<open>EOF\<close> when the input ends before the first one) and the two tokens.
\<close>

definition sscanf_method_path :: "string \<Rightarrow> int \<times> string \<times> string" where
  "sscanf_method_path s =
     (let s1 = dropWhile isspace s in
      if s1 = [] then (-1, [], [])
      else
        (let m = take 31 (takeWhile (\<lambda>c. \<not> isspace c) s1);
             s2 = dropWhile isspace (drop (length m) s1)
         in if s2 = [] then (1, m, [])
            else (2, m, take 255 (takeWhile (\<lambda>c. \<not> isspace c) s2))))"

text \<open>\<^verbatim>\<open>%d\<close> and \<^verbatim>\<open>%zu\<close> of \<^verbatim>\<open>snprintf\<close>.\<close>

fun show_nat :: "nat \<Rightarrow> string" where
  "show_nat n =
     (if n < 10 then [char_of (48 + n)] else show_nat (n div 10) @ [char_of (48 + n mod 10)])"

declare show_nat.simps [simp del]

definition show_int :: "int \<Rightarrow> string" where
  "show_int i = (if i < 0 then CHR ''-'' # show_nat (nat (- i)) else show_nat (nat i))"

subsection \<open>The request parser\<close>

text \<open>
  \<^verbatim>\<open>find_header_ci\<close>: the loop over the lines of \<open>p\<close>; the result is the rest
  of the header text from the value on (the pointer \<^verbatim>\<open>v\<close>).
\<close>

function find_header_lines :: "string \<Rightarrow> string \<Rightarrow> string option" where
  "find_header_lines p key =
     (if p = [] then None
      else
        (let line_end = (case strstr p crlf of None \<Rightarrow> length p | Some i \<Rightarrow> i) in
         if length key \<le> line_end \<and> strncasecmp_eq p key (length key) then
           Some (dropWhile (\<lambda>c. c = CHR '' '' \<or> c = CHR 0x09) (drop (length key) p))
         else if strstr p crlf = None then None
         else find_header_lines (drop (line_end + 2) p) key))"
  by pat_completeness auto
termination
  by (relation "measure (\<lambda>(p, key). length p)") auto

definition find_header_ci :: "string \<Rightarrow> string \<Rightarrow> string option" where
  "find_header_ci headers key = (if key = [] then None else find_header_lines headers key)"

text \<open>
  \<^verbatim>\<open>copy_header_value_token(dst, dst_cap, src)\<close>: what \<^verbatim>\<open>dst\<close> holds
  afterwards (for \<open>dst_cap = 0\<close> nothing is written; \<^verbatim>\<open>dst\<close> was zeroed before).
\<close>

fun trim_trailing :: "string \<Rightarrow> string" where
  "trim_trailing s = rev (dropWhile (\<lambda>c. c = CHR '' '' \<or> c = CHR 0x09) (rev s))"

definition copy_header_value_token :: "nat \<Rightarrow> string \<Rightarrow> string" where
  "copy_header_value_token dst_cap src =
     (if dst_cap = 0 then []
      else trim_trailing (take (dst_cap - 1) (takeWhile (\<lambda>c. c \<noteq> CR \<and> c \<noteq> LF) src)))"

text \<open>
  \<^verbatim>\<open>rtsp_find_header_end(data, len)\<close>: the offset of the first CR LF CR LF that
  lies within the first \<open>len\<close> bytes.
\<close>

fun find_crlfcrlf :: "string \<Rightarrow> nat \<Rightarrow> nat option" where
  "find_crlfcrlf (a # b # c # d # rest) i =
     (if a = CR \<and> b = LF \<and> c = CR \<and> d = LF then Some i
      else find_crlfcrlf (b # c # d # rest) (Suc i))"
| "find_crlfcrlf rest i = None"

definition rtsp_find_header_end :: "string \<Rightarrow> nat \<Rightarrow> nat option" where
  "rtsp_find_header_end data len = find_crlfcrlf (take len data) 0"

definition rtsp_parse_cseq :: "string \<Rightarrow> int" where
  "rtsp_parse_cseq request =
     (case strstr request ''CSeq:'' of Some i \<Rightarrow> atoi (drop (i + 5) request) | None \<Rightarrow> 1)"

definition rtsp_parse_content_length :: "string \<Rightarrow> int" where
  "rtsp_parse_content_length request =
     (case (case strstr request ''Content-Length:'' of
              None \<Rightarrow> strstr request ''content-length:'' | Some i \<Rightarrow> Some i) of
        Some i \<Rightarrow> atoi (drop (i + 15) request)
      | None \<Rightarrow> 0)"

text \<open>
  \<^verbatim>\<open>rtsp_get_body(request, request_len, &body_len)\<close>: the offset of the body in
  the buffer (\<open>None\<close> is the null pointer) and \<^verbatim>\<open>body_len\<close>, a \<^verbatim>\<open>size_t\<close> of
  32 bits.
\<close>

definition rtsp_get_body :: "string \<Rightarrow> nat \<Rightarrow> nat option \<times> nat" where
  "rtsp_get_body request request_len =
     (case strstr request (crlf @ crlf) of
        Some i \<Rightarrow> (Some (i + 4), nat ((int request_len - int (i + 4)) mod 2 ^ 32))
      | None \<Rightarrow> (None, 0))"

text \<open>\<^verbatim>\<open>rtsp_request_t\<close>; the field \<^verbatim>\<open>method\<close> is \<open>req_method\<close> here.\<close>

record rtsp_request =
  req_method :: string
  path :: string
  cseq :: int
  content_length :: nat
  content_type :: string
  body :: "nat option"
  body_len :: nat

text \<open>
  \<^verbatim>\<open>rtsp_request_parse(data, len, req)\<close>: \<open>None\<close> is the result -1, \<open>Some req\<close>
  the result 0 with the request filled in. \<open>data\<close> is the caller's buffer (at least
  \<open>len\<close> bytes); \<open>content_type_cap\<close> is \<^verbatim>\<open>sizeof(req->content_type)\<close>, declared
  in a header that is not part of the sources at hand.
\<close>

definition rtsp_request_parse :: "nat \<Rightarrow> string \<Rightarrow> nat \<Rightarrow> rtsp_request option" where
  "rtsp_request_parse content_type_cap data len =
     (if len = 0 then None
      else
        (case rtsp_find_header_end data len of
           None \<Rightarrow> None
         | Some header_bytes \<Rightarrow>
             (case sscanf_method_path (cstring data) of
                (n, m, p) \<Rightarrow>
                  if n < 1 then None
                  else
                    (let copy_len = (if 1024 \<le> header_bytes then 1023 else header_bytes);
                         header_str = cstring (take copy_len data);
                         cs = (case find_header_ci header_str ''CSeq:'' of
                                 Some v \<Rightarrow> atoi v | None \<Rightarrow> 1);
                         cl = (case find_header_ci header_str ''Content-Length:'' of
                                 Some v \<Rightarrow> nat (atoi v mod 2 ^ 32) | None \<Rightarrow> 0);
                         ct = (case find_header_ci header_str ''Content-Type:'' of
                                 Some v \<Rightarrow> copy_header_value_token content_type_cap v
                               | None \<Rightarrow> [])
                     in case rtsp_get_body (cstring data) len of
                          (b, bl) \<Rightarrow>
                            Some \<lparr>req_method = m, path = p, cseq = cs, content_length = cl,
                                  content_type = ct, body = b, body_len = bl\<rparr>))))"

subsection \<open>The response builder\<close>

text \<open>
  \<^verbatim>\<open>rtsp_send_response\<close>. \<open>None\<close> for \<open>extra_headers\<close> or \<open>body_data\<close> is the null
  pointer; \<open>body_data\<close>, \<open>body_length\<close> and \<open>cseq_no\<close> are the parameters \<^verbatim>\<open>body\<close>,
  \<^verbatim>\<open>body_len\<close> and \<^verbatim>\<open>cseq\<close>. The text is formatted into \<^verbatim>\<open>char header[1024]\<close>: \<^verbatim>\<open>snprintf\<close>
  keeps 1023 characters and a NUL and returns the untruncated length, which the code
  uses as \<^verbatim>\<open>header_len\<close>. The result \<open>None\<close> is a call without a defined result:
  \<^verbatim>\<open>memcpy\<close> reading past the 1024 bytes of \<^verbatim>\<open>header\<close>, or the frame writer
  not returning. Bytes of the allocated response that the code never writes (a null
  \<open>body_data\<close> with a positive \<open>body_length\<close>) are taken as zero.
\<close>

definition response_text ::
  "int \<Rightarrow> string \<Rightarrow> int \<Rightarrow> string option \<Rightarrow> byte list option \<Rightarrow> nat \<Rightarrow> string" where
  "response_text status_code status_text cseq_no extra_headers body_data body_length =
     (if extra_headers \<noteq> None \<and> body_data \<noteq> None \<and> 0 < body_length then
        ''RTSP/1.0 '' @ show_int status_code @ '' '' @ status_text @ crlf @
        ''CSeq: '' @ show_int cseq_no @ crlf @
        ''Server: AirTunes/377.40.00'' @ crlf @
        the extra_headers @
        ''Content-Length: '' @ show_nat body_length @ crlf @
        crlf
      else if extra_headers \<noteq> None then
        ''RTSP/1.0 '' @ show_int status_code @ '' '' @ status_text @ crlf @
        ''CSeq: '' @ show_int cseq_no @ crlf @
        ''Server: AirTunes/377.40.00'' @ crlf @
        the extra_headers @
        crlf
      else if body_data \<noteq> None \<and> 0 < body_length then
        ''RTSP/1.0 '' @ show_int status_code @ '' '' @ status_text @ crlf @
        ''CSeq: '' @ show_int cseq_no @ crlf @
        ''Server: AirTunes/377.40.00'' @ crlf @
        ''Content-Length: '' @ show_nat body_length @ crlf @
        crlf
      else
        ''RTSP/1.0 '' @ show_int status_code @ '' '' @ status_text @ crlf @
        ''CSeq: '' @ show_int cseq_no @ crlf @
        ''Server: AirTunes/377.40.00'' @ crlf @
        crlf)"

definition rtsp_send_response ::
  "nat \<Rightarrow> aead \<Rightarrow> world \<Rightarrow> rtsp_conn option \<Rightarrow> int \<Rightarrow> string \<Rightarrow> int \<Rightarrow> string option
     \<Rightarrow> byte list option \<Rightarrow> nat \<Rightarrow> (int \<times> world \<times> rtsp_conn option) option" where
  "rtsp_send_response block_max a w conn status_code status_text cseq_no extra_headers body_data
       body_length =
     (let formatted = response_text status_code status_text cseq_no extra_headers body_data body_length;
          header = take 1023 formatted @ [NUL];
          header_len = length formatted
      in case malloc w of
           (ok, w1) \<Rightarrow>
             if \<not> ok then Some (-1, w1, conn)
             else if 1024 < header_len then None
             else
               (let response =
                      map of_char (take header_len header) @
                      (case body_data of
                         Some b \<Rightarrow> if 0 < body_length then take body_length b else []
                       | None \<Rightarrow> replicate body_length 0)
                in if (case conn of Some c \<Rightarrow> encrypted_mode c | None \<Rightarrow> False) then
                     (case rtsp_crypto_write_frame block_max a w1 conn response of
                        None \<Rightarrow> None
                      | Some (r, w2, conn') \<Rightarrow> Some (r, free w2 (Some response), conn'))
                   else
                     (case send_all w1 response 0 of
                        (r, w2) \<Rightarrow>
                          Some (if r < 0 then -1 else 0, free w2 (Some response), conn))))"

definition rtsp_send_ok ::
  "nat \<Rightarrow> aead \<Rightarrow> world \<Rightarrow> rtsp_conn option \<Rightarrow> int
     \<Rightarrow> (int \<times> world \<times> rtsp_conn option) option" where
  "rtsp_send_ok block_max a w conn cseq_no =
     rtsp_send_response block_max a w conn 200 ''OK'' cseq_no None None 0"

section \<open>Lemmas about the environment and the loops\<close>

declare recv_len_header.simps [simp del] recv_encrypted.simps [simp del] send_all.simps [simp del]
  spec_chunks.simps [simp del]

lemma send_all_done: "length dat \<le> sent \<Longrightarrow> send_all w dat sent = (0, w)"
  by (subst send_all.simps) simp

lemma send_all_sends_ok:
  "sends_ok w \<Longrightarrow>
     \<exists>ss. send_all w dat sent = (0, w\<lparr>send_script := ss, wire := wire w @ drop sent dat\<rparr>) \<and>
          list_all (\<lambda>r. 0 < r) ss"
proof (induction w dat sent rule: send_all.induct)
  case (1 w dat sent)
  show ?case
  proof (cases "sent < length dat")
    case False
    then show ?thesis using 1(2)
      by (subst send_all.simps) (auto simp: sends_ok_def intro!: exI[of _ "send_script w"])
  next
    case True
    show ?thesis
    proof (cases "send_script w")
      case Nil
      then show ?thesis using True
        by (subst send_all.simps) (auto simp add: send_def send_all_done intro!: exI[of _ "[]"])
    next
      case (Cons r rs)
      with 1(2) have r: "0 < r" and rs: "list_all (\<lambda>r. 0 < r) rs"
        by (simp_all add: sends_ok_def)
      let ?k = "min (nat r) (length dat - sent)"
      let ?w' = "w\<lparr>send_script := rs, wire := wire w @ take ?k (drop sent dat)\<rparr>"
      have s: "send w (drop sent dat) = (int ?k, ?w')"
        using Cons r by (simp add: send_def)
      have k: "0 < ?k" using r True by simp
      have "sends_ok ?w'" using rs by (simp add: sends_ok_def)
      from 1(1)[OF True s[symmetric] _ this] k
      obtain ss where ss: "send_all ?w' dat (sent + nat (int ?k)) =
          (0, ?w'\<lparr>send_script := ss, wire := wire ?w' @ drop (sent + nat (int ?k)) dat\<rparr>)"
          "list_all (\<lambda>r. 0 < r) ss"
        by auto
      have "take ?k (drop sent dat) @ drop (sent + ?k) dat = drop sent dat"
        by (metis append_take_drop_id drop_drop add.commute)
      then show ?thesis using True s k ss
        by (subst send_all.simps) (auto intro!: exI[of _ ss])
    qed
  qed
qed

lemma strict_prefix_Nil_iff: "strict_prefix [] xs \<longleftrightarrow> xs \<noteq> []"
  by (cases xs) simp_all

lemma strict_prefix_same_append: "strict_prefix t b \<Longrightarrow> strict_prefix (a @ t) (a @ b)"
  by (simp add: strict_prefix_def)

lemma send_cases:
  assumes "send w bs = (r, w')" "bs \<noteq> []"
  shows "w' = w\<lparr>send_script := send_script w', wire := wire w'\<rparr> \<and>
         ((r \<le> 0 \<and> wire w' = wire w) \<or>
          (0 < r \<and> nat r \<le> length bs \<and> wire w' = wire w @ take (nat r) bs))"
  using assms by (auto simp: send_def split: list.splits if_splits)

lemma send_all_any:
  assumes "send_all w dat sent = (r, w')"
  shows "w' = w\<lparr>send_script := send_script w', wire := wire w'\<rparr> \<and>
         (\<exists>t. wire w' = wire w @ t \<and>
              ((r = 0 \<and> t = drop sent dat) \<or> (r = -1 \<and> strict_prefix t (drop sent dat))))"
  using assms
proof (induction w dat sent arbitrary: r w' rule: send_all.induct)
  case (1 w dat sent)
  show ?case
  proof (cases "sent < length dat")
    case False
    then show ?thesis using 1(2) by (simp add: send_all_done)
  next
    case True
    obtain r0 w0 where s: "send w (drop sent dat) = (r0, w0)" by (cases "send w (drop sent dat)")
    from True have ne: "drop sent dat \<noteq> []" by simp
    note sc = send_cases[OF s ne]
    show ?thesis
    proof (cases "r0 \<le> 0")
      case le: True
      then have "send_all w dat sent = (-1, w0)" using True s
        by (subst send_all.simps) simp
      with 1(2) have "r = -1" "w' = w0" by simp_all
      then show ?thesis using sc le ne by (auto simp: strict_prefix_Nil_iff intro!: exI[of _ "[]"])
    next
      case gt: False
      then have eq: "send_all w dat sent = send_all w0 dat (sent + nat r0)" using True s
        by (subst send_all.simps) simp
      from eq 1(2) have "send_all w0 dat (sent + nat r0) = (r, w')" by simp
      from 1(1)[OF True s[symmetric] gt this]
      have ih: "w' = w0\<lparr>send_script := send_script w', wire := wire w'\<rparr>"
        and "\<exists>t. wire w' = wire w0 @ t \<and>
              ((r = 0 \<and> t = drop (sent + nat r0) dat) \<or>
               (r = -1 \<and> strict_prefix t (drop (sent + nat r0) dat)))"
        by simp_all
      then obtain t where t: "wire w' = wire w0 @ t"
        "(r = 0 \<and> t = drop (sent + nat r0) dat) \<or>
         (r = -1 \<and> strict_prefix t (drop (sent + nat r0) dat))" by blast
      from sc gt have w0: "w0 = w\<lparr>send_script := send_script w0, wire := wire w0\<rparr>"
        and k: "nat r0 \<le> length (drop sent dat)"
        and wire0: "wire w0 = wire w @ take (nat r0) (drop sent dat)" by auto
      have split: "take (nat r0) (drop sent dat) @ drop (sent + nat r0) dat = drop sent dat"
        by (metis append_take_drop_id drop_drop add.commute)
      have 1: "w' = w\<lparr>send_script := send_script w', wire := wire w'\<rparr>"
        by (subst ih, subst w0) simp
      have 2: "wire w' = wire w @ (take (nat r0) (drop sent dat) @ t)"
        using t(1) wire0 by simp
      have 3: "(r = 0 \<and> take (nat r0) (drop sent dat) @ t = drop sent dat) \<or>
               (r = -1 \<and> strict_prefix (take (nat r0) (drop sent dat) @ t) (drop sent dat))"
        using t(2) split
          strict_prefix_same_append[of t "drop (sent + nat r0) dat" "take (nat r0) (drop sent dat)"]
        by auto
      show ?thesis using 1 2 3 by blast
    qed
  qed
qed

lemma mask8_16: "(0xFF :: 16 word) = mask 8"
  by (simp add: mask_eq_exp_minus_1)

lemma len_header_decode: "decode_block_len (len_header bl) = unat bl"
  unfolding decode_block_len_def len_header_def mask8_16
  apply simp
  apply (rule arg_cong[where f=unat])
  apply (rule bit_word_eqI)
  apply (auto simp add: bit_simps)
  done

lemma len_header_spec: "len_header (of_nat n) = spec_le16 n"
proof -
  have m: "n mod 256 = take_bit 8 n" and d: "n div 256 = drop_bit 8 n"
    by (simp_all add: take_bit_eq_mod drop_bit_eq_div)
  have a: "(ucast ((of_nat n :: 16 word) AND mask 8) :: 8 word) = of_nat (take_bit 8 n)"
    by (rule bit_word_eqI) (auto simp add: bit_simps)
  have b: "(ucast (drop_bit 8 (of_nat n :: 16 word) AND mask 8) :: 8 word) = of_nat (drop_bit 8 n)"
    apply (rule bit_word_eqI)
    apply (auto simp add: bit_simps)
    done
  show ?thesis
    unfolding len_header_def spec_le16_def mask8_16 m d using a b by simp
qed

lemma malloc_keeps: "malloc w = (ok, w1) \<Longrightarrow> wire w1 = wire w \<and> send_script w1 = send_script w"
  by (auto simp: malloc_def split: list.splits)

lemma free_keeps [simp]: "wire (free w p) = wire w" "send_script (free w p) = send_script w"
  "malloc_script (free w p) = malloc_script w" "recv_script (free w p) = recv_script w"
  by (simp_all add: free_def split: option.splits)

lemma spec_chunks_step:
  assumes "0 < n" "off < length dat"
  shows "spec_chunks n (drop off dat) =
           take (min (length dat - off) n) (drop off dat) #
           spec_chunks n (drop (off + min (length dat - off) n) dat)"
proof -
  have "take n (drop off dat) = take (min (length dat - off) n) (drop off dat)"
    by (simp add: min_def)
  moreover have "drop n (drop off dat) = drop (off + min (length dat - off) n) dat"
    by (simp add: min_def add.commute)
  ultimately show ?thesis using assms
    by (subst spec_chunks.simps) simp
qed

lemma write_frames_any:
  assumes bm: "0 < bmax" "bmax \<le> 65535"
  shows "\<exists>r w' k t. write_frames bmax a dat off w s =
            Some (r, w', s\<lparr>encrypt_nonce := encrypt_nonce s + of_nat k\<rparr>) \<and>
          wire w' = wire w @
            spec_frames a (encrypt_key s) (encrypt_nonce s)
              (take k (spec_chunks bmax (drop off dat))) @ t \<and>
          ((r = 0 \<and> k = length (spec_chunks bmax (drop off dat)) \<and> t = []) \<or>
           (r = -1 \<and> k < length (spec_chunks bmax (drop off dat)) \<and>
            strict_prefix t
              (spec_frame a (encrypt_key s) (encrypt_nonce s + of_nat k)
                 (spec_chunks bmax (drop off dat) ! k))))"
proof (induction "length dat - off" arbitrary: off w s rule: less_induct)
  case less
  show ?case
  proof (cases "off < length dat")
    case False
    then have "write_frames bmax a dat off w s = Some (0, w, s)"
      by (subst write_frames.simps) simp
    moreover have "spec_chunks bmax (drop off dat) = []"
      using False by (subst spec_chunks.simps) simp
    ultimately show ?thesis
      by (intro exI[of _ 0] exI[of _ w] exI[of _ "[]"]) simp
  next
    case True
    define n where "n = min (length dat - off) bmax"
    define chunk where "chunk = take n (drop off dat)"
    define lb where "lb = len_header (of_nat n)"
    define ct where
      "ct = aead_encrypt a (encrypt_key s) (nonce12 (encrypt_nonce s)) lb chunk"
    define cs' where "cs' = spec_chunks bmax (drop (off + n) dat)"
    have n: "0 < n" "n \<le> bmax" "n < 65536" "n \<le> length dat - off"
      using bm True by (simp_all add: n_def)
    have unat_n: "unat (of_nat n :: 16 word) = n"
      using n(3) by (simp add: unat_of_nat)
    have ifn: "(if bmax < length dat - off then bmax else length dat - off) = n"
      by (simp add: n_def min_def)
    have len_chunk: "length chunk = n" using n(4) by (simp add: chunk_def)
    have cs: "spec_chunks bmax (drop off dat) = chunk # cs'"
      using spec_chunks_step[OF bm(1) True] by (simp add: chunk_def cs'_def n_def)
    have frame: "spec_frame a (encrypt_key s) (encrypt_nonce s) chunk = lb @ ct"
      by (simp add: spec_frame_def ct_def lb_def len_chunk len_header_spec)
    have lb_len: "length lb = 2" by (simp add: lb_def len_header_def)
    obtain ok w1 where m: "malloc w = (ok, w1)" by (cases "malloc w")
    obtain r1 w2 where s1: "send_all w1 lb 0 = (r1, w2)" by (cases "send_all w1 lb 0")
    obtain r2 w3 where s2: "send_all w2 ct 0 = (r2, w3)" by (cases "send_all w2 ct 0")
    have step: "write_frames bmax a dat off w s =
        (if \<not> ok then Some (-1, w1, s)
         else if length ct \<noteq> n + 16 then Some (-1, free w1 (Some ct), s)
         else if r1 \<noteq> 0 then Some (-1, free w2 (Some ct), s)
         else if r2 \<noteq> 0 then Some (-1, free w3 (Some ct), s)
         else write_frames bmax a dat (off + n) (free w3 (Some ct))
                (s\<lparr>encrypt_nonce := encrypt_nonce s + 1\<rparr>))"
      by (subst write_frames.simps)
         (simp add: True Let_def ifn unat_n m s1 s2 lb_def[symmetric] chunk_def[symmetric]
            ct_def[symmetric])
    have w1: "wire w1 = wire w" using malloc_keeps[OF m] by simp
    from send_all_any[OF s1] obtain t1 where t1: "wire w2 = wire w1 @ t1"
      "(r1 = 0 \<and> t1 = lb) \<or> (r1 = -1 \<and> strict_prefix t1 lb)" by auto
    from send_all_any[OF s2] obtain t2 where t2: "wire w3 = wire w2 @ t2"
      "(r2 = 0 \<and> t2 = ct) \<or> (r2 = -1 \<and> strict_prefix t2 ct)" by auto
    define P where "P = (\<lambda>res :: (int \<times> world \<times> hap_session) option. \<exists>r w' k t. res =
            Some (r, w', s\<lparr>encrypt_nonce := encrypt_nonce s + of_nat k\<rparr>) \<and>
          wire w' = wire w @
            spec_frames a (encrypt_key s) (encrypt_nonce s) (take k (chunk # cs')) @ t \<and>
          ((r = 0 \<and> k = length (chunk # cs') \<and> t = []) \<or>
           (r = -1 \<and> k < length (chunk # cs') \<and>
            strict_prefix t
              (spec_frame a (encrypt_key s) (encrypt_nonce s + of_nat k) ((chunk # cs') ! k)))))"
    have fail: "P (Some (-1, w0, s))"
      if "wire w0 = wire w @ t0" "strict_prefix t0 (lb @ ct)" for w0 t0
      unfolding P_def using that frame
      by (intro exI[of _ "-1"] exI[of _ w0] exI[of _ 0] exI[of _ t0]) simp
    have "P (write_frames bmax a dat off w s)"
    proof (cases "\<not> ok")
      case True
      have "wire w1 = wire w @ []" "strict_prefix [] (lb @ ct)"
        using w1 lb_len by (auto simp: strict_prefix_Nil_iff)
      from fail[OF this] show ?thesis using True by (simp add: step)
    next
      case ok: False
      show ?thesis
      proof (cases "length ct \<noteq> n + 16")
        case True
        have "wire (free w1 (Some ct)) = wire w @ []" "strict_prefix [] (lb @ ct)"
          using w1 lb_len by (auto simp: strict_prefix_Nil_iff)
        from fail[OF this] show ?thesis using ok True by (simp add: step)
      next
        case len: False
        show ?thesis
        proof (cases "r1 \<noteq> 0")
          case True
          with t1 have "strict_prefix t1 lb" by auto
          then have "strict_prefix t1 (lb @ ct)"
            by (meson prefix_order.less_le_trans prefixI)
          moreover have "wire (free w2 (Some ct)) = wire w @ t1" using w1 t1(1) by simp
          ultimately have "P (Some (-1, free w2 (Some ct), s))" using fail by blast
          then show ?thesis using ok len True by (simp add: step)
        next
          case r1: False
          with t1 have t1': "t1 = lb" by auto
          show ?thesis
          proof (cases "r2 \<noteq> 0")
            case True
            with t2 have "strict_prefix t2 ct" by auto
            then have "strict_prefix (lb @ t2) (lb @ ct)" by (rule strict_prefix_same_append)
            moreover have "wire (free w3 (Some ct)) = wire w @ lb @ t2"
              using w1 t1(1) t1' t2(1) by simp
            ultimately have "P (Some (-1, free w3 (Some ct), s))" using fail by blast
            then show ?thesis using ok len r1 True by (simp add: step)
          next
            case r2: False
            with t2 have t2': "t2 = ct" by auto
            let ?w = "free w3 (Some ct)"
            let ?s = "s\<lparr>encrypt_nonce := encrypt_nonce s + 1\<rparr>"
            have "length dat - (off + n) < length dat - off" using n True by simp
            from less[OF this, of ?w ?s]
            obtain r w' k t where ih:
              "write_frames bmax a dat (off + n) ?w ?s =
                 Some (r, w', ?s\<lparr>encrypt_nonce := encrypt_nonce ?s + of_nat k\<rparr>)"
              "wire w' = wire ?w @ spec_frames a (encrypt_key ?s) (encrypt_nonce ?s) (take k cs') @ t"
              "(r = 0 \<and> k = length cs' \<and> t = []) \<or>
               (r = -1 \<and> k < length cs' \<and>
                strict_prefix t (spec_frame a (encrypt_key ?s) (encrypt_nonce ?s + of_nat k) (cs' ! k)))"
              unfolding cs'_def by blast
            have wire: "wire ?w = wire w @ lb @ ct"
              using w1 t1(1) t1' t2(1) t2' by simp
            have eq: "write_frames bmax a dat off w s = write_frames bmax a dat (off + n) ?w ?s"
              using ok len r1 r2 by (simp add: step)
            show ?thesis unfolding P_def eq
              using ih wire frame
              by (intro exI[of _ r] exI[of _ w'] exI[of _ "Suc k"] exI[of _ t])
                 (auto simp: ac_simps)
          qed
        qed
      qed
    qed
    then show ?thesis unfolding P_def cs .
  qed
qed

lemma malloc_mallocs_ok:
  "mallocs_ok w \<Longrightarrow> malloc w = (ok, w1) \<Longrightarrow> ok \<and> mallocs_ok w1 \<and> sends_ok w1 = sends_ok w"
  by (auto simp: malloc_def mallocs_ok_def sends_ok_def split: list.splits)

lemma free_ok [simp]: "mallocs_ok (free w p) = mallocs_ok w" "sends_ok (free w p) = sends_ok w"
  by (simp_all add: mallocs_ok_def sends_ok_def)

lemma write_frames_ok:
  assumes bm: "0 < bmax" "bmax \<le> 65535" and a: "encrypt_lengths a"
  shows "sends_ok w \<Longrightarrow> mallocs_ok w \<Longrightarrow>
         \<exists>w' s'. write_frames bmax a dat off w s = Some (0, w', s')"
proof (induction "length dat - off" arbitrary: off w s rule: less_induct)
  case less
  show ?case
  proof (cases "off < length dat")
    case False
    then show ?thesis by (subst write_frames.simps) simp
  next
    case True
    define n where "n = min (length dat - off) bmax"
    define lb where "lb = len_header (of_nat n)"
    define ct where
      "ct = aead_encrypt a (encrypt_key s) (nonce12 (encrypt_nonce s)) lb (take n (drop off dat))"
    have n: "0 < n" "n < 65536" "n \<le> length dat - off"
      using bm True by (simp_all add: n_def)
    have unat_n: "unat (of_nat n :: 16 word) = n"
      using n(2) by (simp add: unat_of_nat)
    have ifn: "(if bmax < length dat - off then bmax else length dat - off) = n"
      by (simp add: n_def min_def)
    have len: "length ct = n + 16"
      using a n(3) by (simp add: ct_def encrypt_lengths_def)
    obtain ok w1 where m: "malloc w = (ok, w1)" by (cases "malloc w")
    from malloc_mallocs_ok[OF less(3) m] less(2)
    have ok: ok and w1: "mallocs_ok w1" "sends_ok w1" by simp_all
    from send_all_sends_ok[OF w1(2), of lb 0] obtain ss1 where
      s1: "send_all w1 lb 0 = (0, w1\<lparr>send_script := ss1, wire := wire w1 @ drop 0 lb\<rparr>)"
      and ss1: "list_all (\<lambda>r. 0 < r) ss1" by blast
    let ?w2 = "w1\<lparr>send_script := ss1, wire := wire w1 @ drop 0 lb\<rparr>"
    have w2: "mallocs_ok ?w2" "sends_ok ?w2"
      using w1 ss1 by (simp_all add: mallocs_ok_def sends_ok_def)
    from send_all_sends_ok[OF w2(2), of ct 0] obtain ss2 where
      s2: "send_all ?w2 ct 0 = (0, ?w2\<lparr>send_script := ss2, wire := wire ?w2 @ drop 0 ct\<rparr>)"
      and ss2: "list_all (\<lambda>r. 0 < r) ss2" by blast
    let ?w3 = "?w2\<lparr>send_script := ss2, wire := wire ?w2 @ drop 0 ct\<rparr>"
    have w3: "mallocs_ok (free ?w3 (Some ct))" "sends_ok (free ?w3 (Some ct))"
      using w2 ss2 by (simp_all add: mallocs_ok_def sends_ok_def)
    have step: "write_frames bmax a dat off w s =
        write_frames bmax a dat (off + n) (free ?w3 (Some ct))
                (s\<lparr>encrypt_nonce := encrypt_nonce s + 1\<rparr>)"
      using s1 s2
      by (subst write_frames.simps)
         (simp add: True Let_def ifn unat_n m ok len lb_def[symmetric] ct_def[symmetric])
    have "length dat - (off + n) < length dat - off" using n True by simp
    from less(1)[OF this w3(2) w3(1)] show ?thesis unfolding step .
  qed
qed

lemma spec_chunks_Nil: "spec_chunks n [] = []"
  by (subst spec_chunks.simps) simp

lemma spec_chunks_Cons:
  "0 < n \<Longrightarrow> xs \<noteq> [] \<Longrightarrow> spec_chunks n xs = take n xs # spec_chunks n (drop n xs)"
  by (subst spec_chunks.simps) simp

lemma spec_chunks_concat: "0 < n \<Longrightarrow> concat (spec_chunks n xs) = xs"
proof (induction n xs rule: spec_chunks.induct)
  case (1 n xs)
  show ?case
  proof (cases "xs = []")
    case True
    then show ?thesis by (simp add: spec_chunks_Nil)
  next
    case False
    with 1 show ?thesis by (simp add: spec_chunks_Cons)
  qed
qed

lemma spec_chunks_sizes:
  "0 < n \<Longrightarrow> c \<in> set (spec_chunks n xs) \<Longrightarrow> 0 < length c \<and> length c \<le> n"
proof (induction n xs rule: spec_chunks.induct)
  case (1 n xs)
  show ?case
  proof (cases "xs = []")
    case True
    with 1(3) show ?thesis by (simp add: spec_chunks_Nil)
  next
    case False
    from 1(3) have "c = take n xs \<or> c \<in> set (spec_chunks n (drop n xs))"
      using False 1(2) by (simp add: spec_chunks_Cons)
    then show ?thesis using 1(1) 1(2) False by auto
  qed
qed

lemma ceil_div_step:
  fixes n l :: nat
  assumes "0 < n" "0 < l"
  shows "(l + n - 1) div n = Suc ((l - n + n - 1) div n)"
proof (cases "n \<le> l")
  case True
  have "l + n - 1 = (l - 1) + n" using assms by linarith
  then have "(l + n - 1) div n = Suc ((l - 1) div n)"
    using assms(1) by (simp only: div_add_self2) 
  moreover have "l - n + n - 1 = l - 1" using True by linarith
  ultimately show ?thesis by (simp only:)
next
  case False
  then have a: "l - n + n - 1 = n - 1" by linarith
  have b: "(n - 1) div n = 0" using assms(1) by (intro div_less) linarith
  have "l + n - 1 = (l - 1) + n" using assms by linarith
  moreover have "(l - 1) div n = 0" using False assms by (intro div_less) linarith
  ultimately have "(l + n - 1) div n = Suc 0" using assms(1) by (simp only: div_add_self2)
  with a b show ?thesis by (simp only:)
qed

lemma spec_chunks_length:
  "0 < n \<Longrightarrow> length (spec_chunks n xs) = (length xs + n - 1) div n"
proof (induction n xs rule: spec_chunks.induct)
  case (1 n xs)
  show ?case
  proof (cases "xs = []")
    case True
    then show ?thesis using 1(2) by (simp add: spec_chunks_Nil)
  next
    case False
    then have l: "0 < length xs" by simp
    have ih: "length (spec_chunks n (drop n xs)) = (length xs - n + n - 1) div n"
      using 1(1) False 1(2) by simp
    show ?thesis
      unfolding spec_chunks_Cons[OF 1(2) False] ceil_div_step[OF 1(2) l] using ih by simp
  qed
qed

lemma spec_chunks_single:
  assumes "0 < length xs" "length xs \<le> n"
  shows "spec_chunks n xs = [xs]"
proof -
  have "0 < n" using assms by linarith
  moreover have "xs \<noteq> []" using assms by auto
  ultimately show ?thesis using assms(2) by (simp add: spec_chunks_Cons spec_chunks_Nil)
qed

lemma send_script_cases:
  assumes "send w bs = (r, w')" "bs \<noteq> []"
  shows "malloc_script w' = malloc_script w \<and>
         (\<exists>u. send_script w = u @ send_script w' \<and>
              ((0 < r \<and> list_all (\<lambda>x. 0 < x) u) \<or> (r \<le> 0 \<and> (\<exists>f. u = [f] \<and> f \<le> 0))))"
  using assms by (auto simp: send_def split: list.splits if_splits)

lemma send_all_script:
  assumes "send_all w dat sent = (r, w')"
  shows "malloc_script w' = malloc_script w \<and>
         (\<exists>ps fs. send_script w = ps @ fs @ send_script w' \<and> list_all (\<lambda>x. 0 < x) ps \<and>
              ((r = 0 \<and> fs = []) \<or> (r = -1 \<and> (\<exists>f. fs = [f] \<and> f \<le> 0))))"
  using assms
proof (induction w dat sent arbitrary: r w' rule: send_all.induct)
  case (1 w dat sent)
  show ?case
  proof (cases "sent < length dat")
    case False
    then have "r = 0" "w' = w" using 1(2) by (simp_all add: send_all_done)
    then show ?thesis by (intro conjI exI[of _ "[]"]) simp_all
  next
    case True
    obtain r0 w0 where s: "send w (drop sent dat) = (r0, w0)" by (cases "send w (drop sent dat)")
    from True have ne: "drop sent dat \<noteq> []" by simp
    from send_script_cases[OF s ne] obtain u where m0: "malloc_script w0 = malloc_script w"
      and u: "send_script w = u @ send_script w0"
        "(0 < r0 \<and> list_all (\<lambda>x. 0 < x) u) \<or> (r0 \<le> 0 \<and> (\<exists>f. u = [f] \<and> f \<le> 0))"
      by blast
    show ?thesis
    proof (cases "r0 \<le> 0")
      case le: True
      then have "send_all w dat sent = (-1, w0)" using True s
        by (subst send_all.simps) simp
      with 1(2) have "r = -1" "w' = w0" by simp_all
      then show ?thesis using m0 u le
        by (intro conjI exI[of _ "[]"] exI[of _ u]) auto
    next
      case gt: False
      then have eq: "send_all w dat sent = send_all w0 dat (sent + nat r0)" using True s
        by (subst send_all.simps) simp
      from eq 1(2) have "send_all w0 dat (sent + nat r0) = (r, w')" by simp
      from 1(1)[OF True s[symmetric] gt this]
      obtain ps fs where ih: "malloc_script w' = malloc_script w0"
        "send_script w0 = ps @ fs @ send_script w'" "list_all (\<lambda>x. 0 < x) ps"
        "(r = 0 \<and> fs = []) \<or> (r = -1 \<and> (\<exists>f. fs = [f] \<and> f \<le> 0))"
        by blast
      from u gt have pu: "list_all (\<lambda>x. 0 < x) u" by auto
      show ?thesis using ih m0 u(1) pu
        by (intro conjI exI[of _ "u @ ps"] exI[of _ fs]) simp_all
    qed
  qed
qed

lemma malloc_script_cases:
  assumes "malloc w = (ok, w1)"
  shows "\<exists>ms. malloc_script w = ms @ malloc_script w1 \<and>
           ((ok \<and> list_all (\<lambda>b. b) ms) \<or> (\<not> ok \<and> ms = [False]))"
  using assms by (auto simp: malloc_def split: list.splits)

lemma write_frames_trace:
  assumes bm: "0 < bmax" "bmax \<le> 65535"
  shows "\<exists>r w' k t ps fs ms gs. write_frames bmax a dat off w s =
            Some (r, w', s\<lparr>encrypt_nonce := encrypt_nonce s + of_nat k\<rparr>) \<and>
          wire w' = wire w @
            spec_frames a (encrypt_key s) (encrypt_nonce s)
              (take k (spec_chunks bmax (drop off dat))) @ t \<and>
          ((r = 0 \<and> k = length (spec_chunks bmax (drop off dat)) \<and> t = []) \<or>
           (r = -1 \<and> k < length (spec_chunks bmax (drop off dat)) \<and>
            strict_prefix t
              (spec_frame a (encrypt_key s) (encrypt_nonce s + of_nat k)
                 (spec_chunks bmax (drop off dat) ! k)))) \<and>
          send_script w = ps @ fs @ send_script w' \<and> list_all (\<lambda>x. 0 < x) ps \<and>
          (fs = [] \<or> (\<exists>f. fs = [f] \<and> f \<le> 0)) \<and>
          malloc_script w = ms @ gs @ malloc_script w' \<and> list_all (\<lambda>b. b) ms \<and>
          (gs = [] \<or> gs = [False]) \<and>
          ((r = -1) =
           (fs \<noteq> [] \<or> gs \<noteq> [] \<or>
            (k < length (spec_chunks bmax (drop off dat)) \<and>
             \<not> tag_added a (encrypt_key s) (encrypt_nonce s + of_nat k)
                 (spec_chunks bmax (drop off dat) ! k))))"
proof (induction "length dat - off" arbitrary: off w s rule: less_induct)
  case less
  show ?case
  proof (cases "off < length dat")
    case False
    then have "write_frames bmax a dat off w s = Some (0, w, s)"
      by (subst write_frames.simps) simp
    moreover have "spec_chunks bmax (drop off dat) = []"
      using False by (subst spec_chunks.simps) simp
    ultimately show ?thesis
      by (intro exI[of _ 0] exI[of _ w] exI[of _ "[]"]) simp
  next
    case True
    define n where "n = min (length dat - off) bmax"
    define chunk where "chunk = take n (drop off dat)"
    define lb where "lb = len_header (of_nat n)"
    define ct where
      "ct = aead_encrypt a (encrypt_key s) (nonce12 (encrypt_nonce s)) lb chunk"
    define cs' where "cs' = spec_chunks bmax (drop (off + n) dat)"
    have n: "0 < n" "n \<le> bmax" "n < 65536" "n \<le> length dat - off"
      using bm True by (simp_all add: n_def)
    have unat_n: "unat (of_nat n :: 16 word) = n"
      using n(3) by (simp add: unat_of_nat)
    have ifn: "(if bmax < length dat - off then bmax else length dat - off) = n"
      by (simp add: n_def min_def)
    have len_chunk: "length chunk = n" using n(4) by (simp add: chunk_def)
    have cs: "spec_chunks bmax (drop off dat) = chunk # cs'"
      using spec_chunks_step[OF bm(1) True] by (simp add: chunk_def cs'_def n_def)
    have frame: "spec_frame a (encrypt_key s) (encrypt_nonce s) chunk = lb @ ct"
      by (simp add: spec_frame_def ct_def lb_def len_chunk len_header_spec)
    have tag: "tag_added a (encrypt_key s) (encrypt_nonce s) chunk = (length ct = n + 16)"
      by (simp add: tag_added_def ct_def lb_def len_chunk len_header_spec)
    have lb_len: "length lb = 2" by (simp add: lb_def len_header_def)
    then have sp0: "strict_prefix [] (lb @ ct)" by (auto simp: strict_prefix_Nil_iff)
    obtain ok w1 where m: "malloc w = (ok, w1)" by (cases "malloc w")
    obtain r1 w2 where s1: "send_all w1 lb 0 = (r1, w2)" by (cases "send_all w1 lb 0")
    obtain r2 w3 where s2: "send_all w2 ct 0 = (r2, w3)" by (cases "send_all w2 ct 0")
    have step: "write_frames bmax a dat off w s =
        (if \<not> ok then Some (-1, w1, s)
         else if length ct \<noteq> n + 16 then Some (-1, free w1 (Some ct), s)
         else if r1 \<noteq> 0 then Some (-1, free w2 (Some ct), s)
         else if r2 \<noteq> 0 then Some (-1, free w3 (Some ct), s)
         else write_frames bmax a dat (off + n) (free w3 (Some ct))
                (s\<lparr>encrypt_nonce := encrypt_nonce s + 1\<rparr>))"
      by (subst write_frames.simps)
         (simp add: True Let_def ifn unat_n m s1 s2 lb_def[symmetric] chunk_def[symmetric]
            ct_def[symmetric])
    have w1: "wire w1 = wire w" "send_script w1 = send_script w"
      using malloc_keeps[OF m] by simp_all
    from malloc_script_cases[OF m] obtain m1 where m1:
      "malloc_script w = m1 @ malloc_script w1"
      "(ok \<and> list_all (\<lambda>b. b) m1) \<or> (\<not> ok \<and> m1 = [False])" by blast
    from send_all_any[OF s1] obtain t1 where t1: "wire w2 = wire w1 @ t1"
      "(r1 = 0 \<and> t1 = lb) \<or> (r1 = -1 \<and> strict_prefix t1 lb)" by auto
    from send_all_any[OF s2] obtain t2 where t2: "wire w3 = wire w2 @ t2"
      "(r2 = 0 \<and> t2 = ct) \<or> (r2 = -1 \<and> strict_prefix t2 ct)" by auto
    from send_all_script[OF s1] obtain ps1 fs1 where sc1:
      "malloc_script w2 = malloc_script w1"
      "send_script w1 = ps1 @ fs1 @ send_script w2" "list_all (\<lambda>x. 0 < x) ps1"
      "(r1 = 0 \<and> fs1 = []) \<or> (r1 = -1 \<and> (\<exists>f. fs1 = [f] \<and> f \<le> 0))" by blast
    from send_all_script[OF s2] obtain ps2 fs2 where sc2:
      "malloc_script w3 = malloc_script w2"
      "send_script w2 = ps2 @ fs2 @ send_script w3" "list_all (\<lambda>x. 0 < x) ps2"
      "(r2 = 0 \<and> fs2 = []) \<or> (r2 = -1 \<and> (\<exists>f. fs2 = [f] \<and> f \<le> 0))" by blast
    define P where "P = (\<lambda>res :: (int \<times> world \<times> hap_session) option.
        \<exists>r w' k t ps fs ms gs. res =
            Some (r, w', s\<lparr>encrypt_nonce := encrypt_nonce s + of_nat k\<rparr>) \<and>
          wire w' = wire w @
            spec_frames a (encrypt_key s) (encrypt_nonce s) (take k (chunk # cs')) @ t \<and>
          ((r = 0 \<and> k = length (chunk # cs') \<and> t = []) \<or>
           (r = -1 \<and> k < length (chunk # cs') \<and>
            strict_prefix t
              (spec_frame a (encrypt_key s) (encrypt_nonce s + of_nat k) ((chunk # cs') ! k)))) \<and>
          send_script w = ps @ fs @ send_script w' \<and> list_all (\<lambda>x. 0 < x) ps \<and>
          (fs = [] \<or> (\<exists>f. fs = [f] \<and> f \<le> 0)) \<and>
          malloc_script w = ms @ gs @ malloc_script w' \<and> list_all (\<lambda>b. b) ms \<and>
          (gs = [] \<or> gs = [False]) \<and>
          ((r = -1) =
           (fs \<noteq> [] \<or> gs \<noteq> [] \<or>
            (k < length (chunk # cs') \<and>
             \<not> tag_added a (encrypt_key s) (encrypt_nonce s + of_nat k) ((chunk # cs') ! k)))))"
    have fail: "P (Some (-1, w0, s))"
      if "wire w0 = wire w @ t0" "strict_prefix t0 (lb @ ct)"
        "send_script w = ps @ fs @ send_script w0" "list_all (\<lambda>x. 0 < x) ps"
        "fs = [] \<or> (\<exists>f. fs = [f] \<and> f \<le> 0)"
        "malloc_script w = ms @ gs @ malloc_script w0" "list_all (\<lambda>b. b) ms"
        "gs = [] \<or> gs = [False]"
        "fs \<noteq> [] \<or> gs \<noteq> [] \<or> length ct \<noteq> n + 16"
      for w0 t0 ps fs ms gs
      unfolding P_def using that frame tag
      by (intro exI[of _ "-1"] exI[of _ w0] exI[of _ 0] exI[of _ t0] exI[of _ ps] exI[of _ fs]
            exI[of _ ms] exI[of _ gs]) simp
    have "P (write_frames bmax a dat off w s)"
    proof (cases "\<not> ok")
      case True
      have "P (Some (-1, w1, s))"
        apply (rule fail[where ?t0.0 = "[]" and ps = "[]" and fs = "[]" and ms = "[]"
              and gs = "[False]"])
        using w1 sp0 m1 True apply simp_all
        done
      then show ?thesis using True by (simp add: step)
    next
      case ok: False
      with m1 have m1ok: "list_all (\<lambda>b. b) m1" by simp
      show ?thesis
      proof (cases "length ct \<noteq> n + 16")
        case True
        have "P (Some (-1, free w1 (Some ct), s))"
          apply (rule fail[where ?t0.0 = "[]" and ps = "[]" and fs = "[]" and ms = m1
                and gs = "[]"])
          using w1 sp0 m1(1) m1ok True apply simp_all
          done
        then show ?thesis using ok True by (simp add: step)
      next
        case len: False
        show ?thesis
        proof (cases "r1 \<noteq> 0")
          case True
          with t1 have "strict_prefix t1 lb" by auto
          then have sp: "strict_prefix t1 (lb @ ct)"
            by (meson prefix_order.less_le_trans prefixI)
          from True sc1 obtain f where f: "fs1 = [f]" "f \<le> 0" by auto
          have "P (Some (-1, free w2 (Some ct), s))"
            apply (rule fail[where ?t0.0 = t1 and ps = ps1 and fs = "[f]" and ms = m1
                  and gs = "[]"])
            using w1 t1(1) sp sc1(1,2,3) f m1(1) m1ok apply simp_all
            done
          then show ?thesis using ok len True by (simp add: step)
        next
          case r1: False
          with t1 have t1': "t1 = lb" by auto
          from r1 sc1 have fs1: "fs1 = []" by auto
          show ?thesis
          proof (cases "r2 \<noteq> 0")
            case True
            with t2 have "strict_prefix t2 ct" by auto
            then have sp: "strict_prefix (lb @ t2) (lb @ ct)" by (rule strict_prefix_same_append)
            from True sc2 obtain f where f: "fs2 = [f]" "f \<le> 0" by auto
            have "P (Some (-1, free w3 (Some ct), s))"
              apply (rule fail[where ?t0.0 = "lb @ t2" and ps = "ps1 @ ps2" and fs = "[f]"
                    and ms = m1 and gs = "[]"])
              using w1 t1(1) t1' t2(1) sp sc1(1,2,3) sc2(1,2,3) fs1 f m1(1) m1ok
                apply simp_all
              done
            then show ?thesis using ok len r1 True by (simp add: step)
          next
            case r2: False
            with t2 have t2': "t2 = ct" by auto
            from r2 sc2 have fs2: "fs2 = []" by auto
            let ?w = "free w3 (Some ct)"
            let ?s = "s\<lparr>encrypt_nonce := encrypt_nonce s + 1\<rparr>"
            have "length dat - (off + n) < length dat - off" using n True by simp
            from less[OF this, of ?w ?s]
            obtain r w' k t ps fs ms gs where ih:
              "write_frames bmax a dat (off + n) ?w ?s =
                 Some (r, w', ?s\<lparr>encrypt_nonce := encrypt_nonce ?s + of_nat k\<rparr>)"
              "wire w' = wire ?w @ spec_frames a (encrypt_key ?s) (encrypt_nonce ?s) (take k cs') @ t"
              "(r = 0 \<and> k = length cs' \<and> t = []) \<or>
               (r = -1 \<and> k < length cs' \<and>
                strict_prefix t (spec_frame a (encrypt_key ?s) (encrypt_nonce ?s + of_nat k) (cs' ! k)))"
              "send_script ?w = ps @ fs @ send_script w'" "list_all (\<lambda>x. 0 < x) ps"
              "fs = [] \<or> (\<exists>f. fs = [f] \<and> f \<le> 0)"
              "malloc_script ?w = ms @ gs @ malloc_script w'" "list_all (\<lambda>b. b) ms"
              "gs = [] \<or> gs = [False]"
              "(r = -1) =
                 (fs \<noteq> [] \<or> gs \<noteq> [] \<or>
                  (k < length cs' \<and>
                   \<not> tag_added a (encrypt_key ?s) (encrypt_nonce ?s + of_nat k) (cs' ! k)))"
              unfolding cs'_def by blast
            have wire: "wire ?w = wire w @ lb @ ct"
              using w1 t1(1) t1' t2(1) t2' by simp
            have eq: "write_frames bmax a dat off w s = write_frames bmax a dat (off + n) ?w ?s"
              using ok len r1 r2 by (simp add: step)
            have ss: "send_script w = (ps1 @ ps2 @ ps) @ fs @ send_script w'"
              using w1 sc1(2) sc2(2) fs1 fs2 ih(4) by simp
            have pp: "list_all (\<lambda>x. 0 < x) (ps1 @ ps2 @ ps)"
              using sc1(3) sc2(3) ih(5) by simp
            have mm: "malloc_script w = (m1 @ ms) @ gs @ malloc_script w'"
              using m1 sc1(1) sc2(1) ih(7) by simp
            have mp: "list_all (\<lambda>b. b) (m1 @ ms)" using m1ok ih(8) by simp
            have a1: "write_frames bmax a dat (off + n) ?w ?s =
                Some (r, w', s\<lparr>encrypt_nonce := encrypt_nonce s + of_nat (Suc k)\<rparr>)"
              using ih(1) by (simp add: ac_simps)
            have a2: "wire w' = wire w @
                spec_frames a (encrypt_key s) (encrypt_nonce s) (take (Suc k) (chunk # cs')) @ t"
              using ih(2) wire frame by simp
            have a3: "(r = 0 \<and> Suc k = length (chunk # cs') \<and> t = []) \<or>
               (r = -1 \<and> Suc k < length (chunk # cs') \<and>
                strict_prefix t (spec_frame a (encrypt_key s) (encrypt_nonce s + of_nat (Suc k))
                  ((chunk # cs') ! Suc k)))"
              using ih(3) by (auto simp: ac_simps)
            have a4: "(r = -1) =
                 (fs \<noteq> [] \<or> gs \<noteq> [] \<or>
                  (Suc k < length (chunk # cs') \<and>
                   \<not> tag_added a (encrypt_key s) (encrypt_nonce s + of_nat (Suc k))
                       ((chunk # cs') ! Suc k)))"
              using ih(10) by (simp add: ac_simps)
            show ?thesis unfolding P_def eq
              using a1 a2 a3 ss pp ih(6) mm mp ih(9) a4
              by (intro exI[of _ r] exI[of _ w'] exI[of _ "Suc k"] exI[of _ t]
                    exI[of _ "ps1 @ ps2 @ ps"] exI[of _ fs] exI[of _ "m1 @ ms"] exI[of _ gs])
                 blast
          qed
        qed
      qed
    qed
    then show ?thesis unfolding P_def cs .
  qed
qed


lemma trace_last:
  assumes "list_all P ps" and "fs = [] \<or> (\<exists>f. fs = [f] \<and> \<not> P f)"
  shows "list_all P (butlast (ps @ fs))" and "(\<exists>x \<in> set (ps @ fs). \<not> P x) = (fs \<noteq> [])"
  using assms by (auto simp: list_all_iff butlast_append dest: in_set_butlastD)

text \<open>
  C6. With a block maximum between 1 and 65535, writing a payload always returns. The
  payload is cut into \<open>ceil (L / block_max)\<close> consecutive chunks of 1 to
  \<open>block_max\<close> bytes; what reaches the wire is, in order, the frames (two length
  bytes, then ciphertext and tag) of the first \<open>k\<close> chunks, followed by a proper
  part \<open>t\<close> of the next frame when the call fails; the outbound counter has advanced
  by exactly \<open>k\<close>, the number of frames written whole. \<open>used\<close> are the results of
  the \<^verbatim>\<open>send\<close> calls the writer made and \<open>asked\<close> those of its \<^verbatim>\<open>malloc\<close>
  calls: only the last of them can be a failure, so nothing is sent and nothing
  allocated after one. The result is -1 exactly when a \<^verbatim>\<open>send\<close> failed, a
  \<^verbatim>\<open>malloc\<close> failed or the cipher did not add its 16-byte tag to chunk \<open>k\<close>;
  then chunk \<open>k\<close> is the failed chunk, its frame is incomplete on the wire and its
  counter value is unused. Otherwise the result is 0 with every frame written.
\<close>

theorem write_frame_chunks:
  assumes "0 < block_max" and "block_max \<le> 65535"
    and "hap_session c = Some s" and "encrypted_mode c" and "dat \<noteq> []"
  shows "\<exists>r w' k t used asked.
      rtsp_crypto_write_frame block_max a w (Some c) dat =
        Some (r, w',
          Some (c\<lparr>hap_session := Some (s\<lparr>encrypt_nonce := encrypt_nonce s + of_nat k\<rparr>)\<rparr>)) \<and>
      wire w' =
        wire w @
        spec_frames a (encrypt_key s) (encrypt_nonce s) (take k (spec_chunks block_max dat)) @ t \<and>
      ((r = 0 \<and> k = length (spec_chunks block_max dat) \<and> t = []) \<or>
       (r = -1 \<and> k < length (spec_chunks block_max dat) \<and>
        strict_prefix t
          (spec_frame a (encrypt_key s) (encrypt_nonce s + of_nat k)
             (spec_chunks block_max dat ! k)))) \<and>
      send_script w = used @ send_script w' \<and>
      malloc_script w = asked @ malloc_script w' \<and>
      list_all (\<lambda>x. 0 < x) (butlast used) \<and>
      list_all (\<lambda>ok. ok) (butlast asked) \<and>
      ((r = -1) =
       ((\<exists>x \<in> set used. x \<le> 0) \<or> (\<exists>ok \<in> set asked. \<not> ok) \<or>
        (k < length (spec_chunks block_max dat) \<and>
         \<not> tag_added a (encrypt_key s) (encrypt_nonce s + of_nat k)
             (spec_chunks block_max dat ! k)))) \<and>
      (sends_ok w \<and> mallocs_ok w \<and> encrypt_lengths a \<longrightarrow> r = 0) \<and>
      concat (spec_chunks block_max dat) = dat \<and>
      length (spec_chunks block_max dat) = (length dat + block_max - 1) div block_max \<and>
      (\<forall>ch \<in> set (spec_chunks block_max dat). 0 < length ch \<and> length ch \<le> block_max)"
proof -
  from write_frames_trace[OF assms(1,2), of a dat 0 w s]
  obtain r w' k t ps fs ms gs where any:
    "write_frames block_max a dat 0 w s =
       Some (r, w', s\<lparr>encrypt_nonce := encrypt_nonce s + of_nat k\<rparr>)"
    "wire w' = wire w @
       spec_frames a (encrypt_key s) (encrypt_nonce s) (take k (spec_chunks block_max dat)) @ t"
    "(r = 0 \<and> k = length (spec_chunks block_max dat) \<and> t = []) \<or>
     (r = -1 \<and> k < length (spec_chunks block_max dat) \<and>
      strict_prefix t
        (spec_frame a (encrypt_key s) (encrypt_nonce s + of_nat k)
           (spec_chunks block_max dat ! k)))"
    and tr: "send_script w = ps @ fs @ send_script w'" "list_all (\<lambda>x. 0 < x) ps"
      "fs = [] \<or> (\<exists>f. fs = [f] \<and> f \<le> 0)"
      "malloc_script w = ms @ gs @ malloc_script w'" "list_all (\<lambda>b. b) ms"
      "gs = [] \<or> gs = [False]"
    and iff: "(r = -1) =
       (fs \<noteq> [] \<or> gs \<noteq> [] \<or>
        (k < length (spec_chunks block_max dat) \<and>
         \<not> tag_added a (encrypt_key s) (encrypt_nonce s + of_nat k)
             (spec_chunks block_max dat ! k)))"
    unfolding drop_0 by blast
  have res: "rtsp_crypto_write_frame block_max a w (Some c) dat =
        Some (r, w',
          Some (c\<lparr>hap_session := Some (s\<lparr>encrypt_nonce := encrypt_nonce s + of_nat k\<rparr>)\<rparr>))"
    using assms(3,4) any(1) by (simp add: rtsp_crypto_write_frame_def)
  have ok: "r = 0" if "sends_ok w" "mallocs_ok w" "encrypt_lengths a"
    using write_frames_ok[OF assms(1,2) that(3) that(1,2), of dat 0 s] any(1) by auto
  have sizes: "\<forall>ch \<in> set (spec_chunks block_max dat). 0 < length ch \<and> length ch \<le> block_max"
    using spec_chunks_sizes[OF assms(1)] by blast
  have fs': "fs = [] \<or> (\<exists>f. fs = [f] \<and> \<not> 0 < f)" using tr(3) by auto
  have gs': "gs = [] \<or> (\<exists>g. gs = [g] \<and> \<not> g)" using tr(6) by auto
  have u1: "send_script w = (ps @ fs) @ send_script w'" using tr(1) by simp
  have u2: "malloc_script w = (ms @ gs) @ malloc_script w'" using tr(4) by simp
  have u3: "list_all (\<lambda>x. 0 < x) (butlast (ps @ fs))" by (rule trace_last(1)[OF tr(2) fs'])
  have u4: "list_all (\<lambda>ok. ok) (butlast (ms @ gs))" by (rule trace_last(1)[OF tr(5) gs'])
  have "(\<exists>x \<in> set (ps @ fs). \<not> 0 < x) = (fs \<noteq> [])" by (rule trace_last(2)[OF tr(2) fs'])
  then have u5: "(\<exists>x \<in> set (ps @ fs). x \<le> 0) = (fs \<noteq> [])" by (simp add: not_less)
  have u6: "(\<exists>ok \<in> set (ms @ gs). \<not> ok) = (gs \<noteq> [])" by (rule trace_last(2)[OF tr(5) gs'])
  have u7: "(r = -1) =
       ((\<exists>x \<in> set (ps @ fs). x \<le> 0) \<or> (\<exists>ok \<in> set (ms @ gs). \<not> ok) \<or>
        (k < length (spec_chunks block_max dat) \<and>
         \<not> tag_added a (encrypt_key s) (encrypt_nonce s + of_nat k)
             (spec_chunks block_max dat ! k)))"
    unfolding u5 u6 by (rule iff)
  show ?thesis
    using res any(2,3) u1 u2 u3 u4 u7 ok sizes spec_chunks_concat[OF assms(1), of dat]
      spec_chunks_length[OF assms(1), of dat]
    by (intro exI[of _ r] exI[of _ w'] exI[of _ k] exI[of _ t] exI[of _ "ps @ fs"]
          exI[of _ "ms @ gs"]) blast
qed

theorem write_frame_chunks_witness:
  "(0::nat) < 4 \<and> (4::nat) \<le> 65535 \<and>
   hap_session demo_conn = Some demo_session \<and> encrypted_mode demo_conn \<and>
   [1, 2, 3, 4, 5 :: byte] \<noteq> [] \<and>
   rtsp_crypto_write_frame 4 xor_aead (quiet_world\<lparr>send_script := [1, 5, 30, 2, 0, 9]\<rparr>)
       (Some demo_conn) [1, 2, 3, 4, 5] =
     Some (-1,
       quiet_world\<lparr>send_script := [9],
         wire := [4, 0, 8, 11, 10, 13, 0, 0, 0, 0, 0, 0, 0, 0, 0, 0, 0, 0, 0, 0, 0, 55, 1, 0],
         mallocs := 2\<rparr>,
       Some (demo_conn\<lparr>hap_session := Some (demo_session\<lparr>encrypt_nonce := 42\<rparr>)\<rparr>)) \<and>
   (\<exists>r w' k t used asked.
      rtsp_crypto_write_frame 4 xor_aead (quiet_world\<lparr>send_script := [1, 5, 30, 2, 0, 9]\<rparr>)
          (Some demo_conn) [1, 2, 3, 4, 5] =
        Some (r, w',
          Some (demo_conn\<lparr>hap_session :=
            Some (demo_session\<lparr>encrypt_nonce := encrypt_nonce demo_session + of_nat k\<rparr>)\<rparr>)) \<and>
      wire w' =
        wire (quiet_world\<lparr>send_script := [1, 5, 30, 2, 0, 9]\<rparr>) @
        spec_frames xor_aead (encrypt_key demo_session) (encrypt_nonce demo_session)
          (take k (spec_chunks 4 [1, 2, 3, 4, 5])) @ t \<and>
      ((r = 0 \<and> k = length (spec_chunks 4 [1, 2, 3, 4, 5 :: byte]) \<and> t = []) \<or>
       (r = -1 \<and> k < length (spec_chunks 4 [1, 2, 3, 4, 5 :: byte]) \<and>
        strict_prefix t
          (spec_frame xor_aead (encrypt_key demo_session) (encrypt_nonce demo_session + of_nat k)
             (spec_chunks 4 [1, 2, 3, 4, 5] ! k)))) \<and>
      send_script (quiet_world\<lparr>send_script := [1, 5, 30, 2, 0, 9]\<rparr>) = used @ send_script w' \<and>
      malloc_script (quiet_world\<lparr>send_script := [1, 5, 30, 2, 0, 9]\<rparr>) =
        asked @ malloc_script w' \<and>
      list_all (\<lambda>x. 0 < x) (butlast used) \<and>
      list_all (\<lambda>ok. ok) (butlast asked) \<and>
      ((r = -1) =
       ((\<exists>x \<in> set used. x \<le> 0) \<or> (\<exists>ok \<in> set asked. \<not> ok) \<or>
        (k < length (spec_chunks 4 [1, 2, 3, 4, 5 :: byte]) \<and>
         \<not> tag_added xor_aead (encrypt_key demo_session) (encrypt_nonce demo_session + of_nat k)
             (spec_chunks 4 [1, 2, 3, 4, 5] ! k)))) \<and>
      (sends_ok (quiet_world\<lparr>send_script := [1, 5, 30, 2, 0, 9]\<rparr>) \<and>
       mallocs_ok (quiet_world\<lparr>send_script := [1, 5, 30, 2, 0, 9]\<rparr>) \<and>
       encrypt_lengths xor_aead
         \<longrightarrow> r = 0) \<and>
      concat (spec_chunks 4 [1, 2, 3, 4, 5 :: byte]) = [1, 2, 3, 4, 5] \<and>
      length (spec_chunks 4 [1, 2, 3, 4, 5 :: byte]) = (length [1, 2, 3, 4, 5 :: byte] + 4 - 1) div 4 \<and>
      (\<forall>ch \<in> set (spec_chunks 4 [1, 2, 3, 4, 5 :: byte]). 0 < length ch \<and> length ch \<le> 4))"
proof -
  have h1: "(0::nat) < 4" and h2: "(4::nat) \<le> 65535" by simp_all
  have h3: "hap_session demo_conn = Some demo_session" and h4: "encrypted_mode demo_conn"
    by (simp_all add: demo_conn_def)
  have h5: "[1, 2, 3, 4, 5 :: byte] \<noteq> []" by simp
  have run: "rtsp_crypto_write_frame 4 xor_aead
       (quiet_world\<lparr>send_script := [1, 5, 30, 2, 0, 9]\<rparr>) (Some demo_conn) [1, 2, 3, 4, 5] =
     Some (-1,
       quiet_world\<lparr>send_script := [9],
         wire := [4, 0, 8, 11, 10, 13, 0, 0, 0, 0, 0, 0, 0, 0, 0, 0, 0, 0, 0, 0, 0, 55, 1, 0],
         mallocs := 2\<rparr>,
       Some (demo_conn\<lparr>hap_session := Some (demo_session\<lparr>encrypt_nonce := 42\<rparr>)\<rparr>))"
    by code_simp
  show ?thesis
    by (intro conjI h1 h2 h3 h4 h5 run write_frame_chunks[OF h1 h2 h3 h4 h5])
qed

lemma recv_len_header_full:
  "2 \<le> len_received rx \<Longrightarrow> recv_len_header rx w = (None, rx, w)"
  by (subst recv_len_header.simps) simp

lemma recv_encrypted_full:
  "encrypted_len rx \<le> encrypted_received rx \<Longrightarrow> recv_encrypted rx w = (None, rx, w)"
  by (subst recv_encrypted.simps) simp

lemma recv_len_header_chunk:
  assumes "len_received rx = 0" "recv_script w = Data (h0 # h1 # bs) # es"
  shows "recv_len_header rx w =
     (None, rx\<lparr>len_buf := write_at (len_buf rx) 0 [h0, h1], len_received := 2\<rparr>,
      w\<lparr>recv_script := (if bs = [] then es else Data bs # es)\<rparr>)"
  using assms
  by (subst recv_len_header.simps) (simp add: recv_def recv_len_header_full)

lemma recv_encrypted_chunk:
  assumes "encrypted_received rx = 0" "encrypted rx = Some buf" "recv_script w = Data ct # es"
    "length ct = encrypted_len rx" "length buf = encrypted_len rx" "0 < encrypted_len rx"
  shows "recv_encrypted rx w =
     (None, rx\<lparr>encrypted := Some ct, encrypted_received := encrypted_len rx\<rparr>,
      w\<lparr>recv_script := es\<rparr>)"
  using assms
  by (subst recv_encrypted.simps) (auto simp add: recv_def recv_encrypted_full write_at_def)

lemma malloc_ok_malloc:
  "malloc_ok w \<Longrightarrow>
   malloc w = (True, w\<lparr>malloc_script := tl (malloc_script w), mallocs := Suc (mallocs w),
                        live_blocks := Suc (live_blocks w)\<rparr>)"
  by (auto simp: malloc_ok_def malloc_def split: list.splits)

lemma write_at_whole: "length dst = length src \<Longrightarrow> write_at dst 0 src = src"
  by (simp add: write_at_def)

lemma read_block_one_chunk:
  assumes c: "hap_session c = Some s" "encrypted_mode c"
    and rx: "len_received (crypto_rx c) = 0" "encrypted (crypto_rx c) = None"
      "length (len_buf (crypto_rx c)) = 2"
    and w: "recv_script w = Data (h0 # h1 # ct) # es" "malloc_ok w"
    and L: "decode_block_len [h0, h1] = L" "0 < L" "L \<le> block_max" "L \<le> buffer_size"
      "length ct = L + 16"
  shows "rtsp_crypto_read_block block_max a w (Some c) buffer buffer_size =
     (case decrypt_block a s
             ((crypto_rx c)\<lparr>len_buf := [h0, h1], len_received := 2, block_len := L,
                encrypted_len := L + 16, encrypted := Some ct, encrypted_received := L + 16\<rparr>)
             (w\<lparr>malloc_script := tl (malloc_script w), mallocs := Suc (mallocs w),
                live_blocks := Suc (live_blocks w), recv_script := es\<rparr>)
             buffer buffer_size of
        (r, s', rx4, w4, buffer') \<Rightarrow>
          (r, w4, Some (c\<lparr>hap_session := Some s', crypto_rx := rx4\<rparr>), buffer'))"
proof -
  let ?rx1 = "(crypto_rx c)\<lparr>len_buf := [h0, h1], len_received := 2\<rparr>"
  let ?w1 = "w\<lparr>recv_script := Data ct # es\<rparr>"
  have ct: "ct \<noteq> []" using L(5) by auto
  have 1: "recv_len_header (crypto_rx c) w = (None, ?rx1, ?w1)"
    using recv_len_header_chunk[OF rx(1) w(1)] ct rx(3) by (simp add: write_at_whole)
  let ?rx2 = "?rx1\<lparr>block_len := L, encrypted_len := L + 16, encrypted_received := 0,
                encrypted := Some (replicate (L + 16) 0)\<rparr>"
  let ?w2 = "?w1\<lparr>malloc_script := tl (malloc_script w), mallocs := Suc (mallocs w),
                live_blocks := Suc (live_blocks w)\<rparr>"
  have mok: "malloc_ok ?w1" using w(2) by (simp add: malloc_ok_def)
  have 2: "alloc_encrypted block_max ?rx1 ?w1 buffer_size = (None, ?rx2, ?w2)"
    using rx(2) L malloc_ok_malloc[OF mok] by (simp add: alloc_encrypted_def Let_def)
  have 3: "recv_encrypted ?rx2 ?w2 =
      (None, ?rx2\<lparr>encrypted := Some ct, encrypted_received := encrypted_len ?rx2\<rparr>,
       ?w2\<lparr>recv_script := es\<rparr>)"
    by (rule recv_encrypted_chunk[where buf = "replicate (L + 16) 0"]) (simp_all add: L)
  show ?thesis
    unfolding rtsp_crypto_read_block_def using c by (simp add: 1 2 3)
qed

lemma xor_aead_correct: "aead_correct xor_aead"
  by (simp add: aead_correct_def xor_aead_def xor_encrypt_def xor_decrypt_def xor_tag_def Let_def
         comp_def xor.assoc)

lemma xor_aead_lengths: "aead_lengths xor_aead"
  by (auto simp add: aead_lengths_def xor_aead_def xor_decrypt_def Let_def split: if_splits)

lemma write_one_frame:
  assumes bm: "0 < length P" "length P \<le> block_max" "block_max \<le> 65535"
    and ok: "sends_ok w" "mallocs_ok w" "encrypt_lengths a"
  shows "\<exists>w'. write_frames block_max a P 0 w s =
            Some (0, w', s\<lparr>encrypt_nonce := encrypt_nonce s + 1\<rparr>) \<and>
          wire w' = wire w @ spec_frame a (encrypt_key s) (encrypt_nonce s) P"
proof -
  have b0: "0 < block_max" using bm by linarith
  have cs: "spec_chunks block_max P = [P]" using bm by (simp add: spec_chunks_single)
  have "\<exists>r w' k t. write_frames block_max a P 0 w s =
       Some (r, w', s\<lparr>encrypt_nonce := encrypt_nonce s + of_nat k\<rparr>) \<and>
    wire w' = wire w @ spec_frames a (encrypt_key s) (encrypt_nonce s) (take k [P]) @ t \<and>
    ((r = 0 \<and> k = length [P] \<and> t = []) \<or> (r = -1 \<and> k < length [P]))"
    using write_frames_any[OF b0 bm(3), of a P 0 w s] unfolding cs drop_0 by blast
  then obtain r w' k t where any:
    "write_frames block_max a P 0 w s =
       Some (r, w', s\<lparr>encrypt_nonce := encrypt_nonce s + of_nat k\<rparr>)"
    "wire w' = wire w @ spec_frames a (encrypt_key s) (encrypt_nonce s) (take k [P]) @ t"
    "(r = 0 \<and> k = length [P] \<and> t = []) \<or> (r = -1 \<and> k < length [P])"
    by blast
  from write_frames_ok[OF b0 bm(3) ok(3) ok(1,2), of P 0 s] any(1) have "r = 0" by auto
  with any show ?thesis by auto
qed

lemma spec_le16_decode: "n < 65536 \<Longrightarrow> decode_block_len (spec_le16 n) = n"
  using len_header_decode[of "of_nat n"] by (simp add: len_header_spec unat_of_nat)

text \<open>
  C1. A payload of 1 to \<open>block_max\<close> bytes that \<^verbatim>\<open>rtsp_crypto_write_frame\<close>
  writes (no \<^verbatim>\<open>send\<close> or \<^verbatim>\<open>malloc\<close> failing) leaves one frame on the wire;
  \<^verbatim>\<open>rtsp_crypto_read_block\<close>, on a connection between frames whose inbound key and
  counter match the writer's outbound ones and with room for the payload, returns the
  payload's length and puts the payload at the start of the buffer. The outbound and
  the inbound counter have each advanced by exactly 1.
\<close>

theorem frame_round_trip:
  assumes a: "aead_correct a"
    and P: "0 < length P" "length P \<le> block_max" "block_max \<le> 65535"
      "length P \<le> buffer_size"
    and tx: "hap_session ctx = Some stx" "encrypted_mode ctx"
    and rx: "hap_session crx = Some srx" "encrypted_mode crx"
      "decrypt_key srx = encrypt_key stx" "decrypt_nonce srx = encrypt_nonce stx"
    and idle: "len_received (crypto_rx crx) = 0" "encrypted (crypto_rx crx) = None"
      "length (len_buf (crypto_rx crx)) = 2"
    and wt: "sends_ok wt" "mallocs_ok wt"
    and wr: "malloc_ok wr"
  shows "\<exists>wt' frame wr' rx'.
      rtsp_crypto_write_frame block_max a wt (Some ctx) P =
        Some (0, wt',
          Some (ctx\<lparr>hap_session := Some (stx\<lparr>encrypt_nonce := encrypt_nonce stx + 1\<rparr>)\<rparr>)) \<and>
      wire wt' = wire wt @ frame \<and>
      rtsp_crypto_read_block block_max a (wr\<lparr>recv_script := [Data frame]\<rparr>) (Some crx)
          buffer buffer_size =
        (int (length P), wr',
         Some (crx\<lparr>hap_session := Some (srx\<lparr>decrypt_nonce := decrypt_nonce srx + 1\<rparr>),
                   crypto_rx := rx'\<rparr>),
         P @ drop (length P) buffer) \<and>
      len_received rx' = 0 \<and> encrypted rx' = None \<and> recv_script wr' = []"
proof -
  have el: "encrypt_lengths a" using a by (simp add: aead_correct_def encrypt_lengths_def)
  define L where "L = length P"
  define ct where
    "ct = aead_encrypt a (encrypt_key stx) (nonce12 (encrypt_nonce stx)) (spec_le16 L) P"
  from write_one_frame[OF P(1,2,3) wt el, of stx]
  obtain wt' where w: "write_frames block_max a P 0 wt stx =
            Some (0, wt', stx\<lparr>encrypt_nonce := encrypt_nonce stx + 1\<rparr>)"
    "wire wt' = wire wt @ spec_frame a (encrypt_key stx) (encrypt_nonce stx) P" by blast
  have frame: "spec_frame a (encrypt_key stx) (encrypt_nonce stx) P =
      of_nat (L mod 256) # of_nat (L div 256) # ct"
    by (simp add: spec_frame_def ct_def L_def spec_le16_def)
  have L: "decode_block_len [of_nat (L mod 256), of_nat (L div 256)] = L" "0 < L"
    "L \<le> block_max" "L \<le> buffer_size"
    using P spec_le16_decode[of L] by (simp_all add: L_def spec_le16_def)
  have len: "length ct = L + 16" using el by (simp add: ct_def encrypt_lengths_def L_def)
  have dec: "aead_decrypt a (decrypt_key srx) (nonce12 (decrypt_nonce srx))
      [of_nat (L mod 256), of_nat (L div 256)] ct = Some P"
    using a rx(3,4) by (simp add: aead_correct_def ct_def spec_le16_def)
  have wr1: "recv_script (wr\<lparr>recv_script := [Data (spec_frame a (encrypt_key stx)
      (encrypt_nonce stx) P)]\<rparr>) = Data (of_nat (L mod 256) # of_nat (L div 256) # ct) # []"
    by (simp add: frame)
  have wr2: "malloc_ok (wr\<lparr>recv_script := [Data (spec_frame a (encrypt_key stx)
      (encrypt_nonce stx) P)]\<rparr>)"
    using wr by (simp add: malloc_ok_def)
  note rd = read_block_one_chunk[OF rx(1,2) idle wr1 wr2 L len, of a buffer]
  have wres: "rtsp_crypto_write_frame block_max a wt (Some ctx) P =
        Some (0, wt',
          Some (ctx\<lparr>hap_session := Some (stx\<lparr>encrypt_nonce := encrypt_nonce stx + 1\<rparr>)\<rparr>))"
    using tx w(1) by (simp add: rtsp_crypto_write_frame_def)
  have lp: "length P = L" by (simp add: L_def)
  have nl: "\<not> buffer_size < L" using P(4) by (simp add: L_def)
  show ?thesis
    apply (rule exI[of _ wt'])
    apply (rule exI[of _ "spec_frame a (encrypt_key stx) (encrypt_nonce stx) P"])
    apply (rule exI[of _ "free (wr\<lparr>malloc_script := tl (malloc_script wr),
              mallocs := Suc (mallocs wr), live_blocks := Suc (live_blocks wr),
              recv_script := []\<rparr>) (Some ct)"])
    apply (rule exI[of _ "(crypto_rx crx)\<lparr>len_buf := [of_nat (L mod 256), of_nat (L div 256)],
              encrypted := None, len_received := 0, block_len := 0, encrypted_len := 0,
              encrypted_received := 0\<rparr>"])
    apply (simp add: wres w(2) rd decrypt_block_def dec len release_rx_def Let_def lp nl)
    done
qed

theorem frame_round_trip_witness:
  "aead_correct xor_aead \<and> 0 < length [72, 105 :: byte] \<and> length [72, 105 :: byte] \<le> 1024 \<and>
   (1024 :: nat) \<le> 65535 \<and> length [72, 105 :: byte] \<le> 16 \<and>
   hap_session demo_conn = Some demo_session \<and> encrypted_mode demo_conn \<and>
   decrypt_key demo_session = encrypt_key demo_session \<and>
   decrypt_nonce demo_session = encrypt_nonce demo_session \<and>
   len_received (crypto_rx demo_conn) = 0 \<and> encrypted (crypto_rx demo_conn) = None \<and>
   length (len_buf (crypto_rx demo_conn)) = 2 \<and>
   sends_ok quiet_world \<and> mallocs_ok quiet_world \<and> malloc_ok quiet_world \<and>
   (\<exists>wt' frame wr' rx'.
      rtsp_crypto_write_frame 1024 xor_aead quiet_world (Some demo_conn) [72, 105] =
        Some (0, wt',
          Some (demo_conn\<lparr>hap_session :=
                  Some (demo_session\<lparr>encrypt_nonce := encrypt_nonce demo_session + 1\<rparr>)\<rparr>)) \<and>
      wire wt' = wire quiet_world @ frame \<and>
      rtsp_crypto_read_block 1024 xor_aead (quiet_world\<lparr>recv_script := [Data frame]\<rparr>)
          (Some demo_conn) (replicate 16 0) 16 =
        (int (length [72, 105 :: byte]), wr',
         Some (demo_conn\<lparr>hap_session :=
                  Some (demo_session\<lparr>decrypt_nonce := decrypt_nonce demo_session + 1\<rparr>),
                crypto_rx := rx'\<rparr>),
         [72, 105] @ drop (length [72, 105 :: byte]) (replicate 16 0)) \<and>
      len_received rx' = 0 \<and> encrypted rx' = None \<and> recv_script wr' = [])"
proof -
  have h1: "0 < length [72, 105 :: byte]" "length [72, 105 :: byte] \<le> 1024"
    "(1024 :: nat) \<le> 65535" "length [72, 105 :: byte] \<le> 16" by simp_all
  have h2: "hap_session demo_conn = Some demo_session" "encrypted_mode demo_conn"
    by (simp_all add: demo_conn_def)
  have h3: "decrypt_key demo_session = encrypt_key demo_session"
    "decrypt_nonce demo_session = encrypt_nonce demo_session"
    by (simp_all add: demo_session_def)
  have h4: "len_received (crypto_rx demo_conn) = 0" "encrypted (crypto_rx demo_conn) = None"
    "length (len_buf (crypto_rx demo_conn)) = 2"
    by (simp_all add: demo_conn_def idle_rx_def)
  have h5: "sends_ok quiet_world" "mallocs_ok quiet_world" "malloc_ok quiet_world"
    by (simp_all add: sends_ok_def mallocs_ok_def malloc_ok_def quiet_world_def)
  show ?thesis
    by (intro conjI xor_aead_correct h1 h2 h3 h4 h5
          frame_round_trip[OF xor_aead_correct h1 h2 h2 h3 h4 h5])
qed

lemma recv_keeps: "recv w n = (res, w') \<Longrightarrow> w' = w\<lparr>recv_script := recv_script w'\<rparr>"
  by (auto simp: recv_def split: list.splits recv_event.splits if_splits)

lemma recv_len_header_keeps:
  "recv_len_header rx w = (r, rx', w') \<Longrightarrow>
     w' = w\<lparr>recv_script := recv_script w'\<rparr> \<and>
     rx' = rx\<lparr>len_buf := len_buf rx', len_received := len_received rx'\<rparr>"
proof (induction rx w arbitrary: r rx' w' rule: recv_len_header.induct)
  case (1 rx w)
  show ?case
  proof (cases "len_received rx < 2")
    case False
    with 1(2) show ?thesis by (simp add: recv_len_header_full)
  next
    case True
    obtain res w0 where rc: "recv w (2 - len_received rx) = (res, w0)"
      by (cases "recv w (2 - len_received rx)")
    note k = recv_keeps[OF rc]
    show ?thesis
    proof (cases res)
      case (Got bs)
      let ?rx = "rx\<lparr>len_buf := write_at (len_buf rx) (len_received rx) bs,
                    len_received := len_received rx + length bs\<rparr>"
      have "recv_len_header rx w = recv_len_header ?rx w0"
        using True rc Got by (subst recv_len_header.simps) simp
      with 1(2) have "recv_len_header ?rx w0 = (r, rx', w')" by simp
      from 1(1)[OF True rc[symmetric] Got this]
      have a: "w' = w0\<lparr>recv_script := recv_script w'\<rparr>"
        and b: "rx' = ?rx\<lparr>len_buf := len_buf rx', len_received := len_received rx'\<rparr>"
        by simp_all
      have "w' = w\<lparr>recv_script := recv_script w'\<rparr>" by (subst a, subst k) simp
      moreover have "rx' = rx\<lparr>len_buf := len_buf rx', len_received := len_received rx'\<rparr>"
        by (subst b) simp
      ultimately show ?thesis by simp
    next
      case Again
      then have "recv_len_header rx w = (Some 0, rx, w0)"
        using True rc by (subst recv_len_header.simps) simp
      with 1(2) k show ?thesis by auto
    next
      case Failed
      then have "recv_len_header rx w = (Some (-1), rx, w0)"
        using True rc by (subst recv_len_header.simps) simp
      with 1(2) k show ?thesis by auto
    next
      case Closed
      then have "recv_len_header rx w = (Some (-1), rx, w0)"
        using True rc by (subst recv_len_header.simps) simp
      with 1(2) k show ?thesis by auto
    qed
  qed
qed

text \<open>
  C3. When the length header is complete and no buffer is held, a declared length that
  is 0, above \<open>block_max\<close> or above the caller's \<open>buffer_size\<close> makes the call
  return -1 without calling \<^verbatim>\<open>malloc\<close>: the heap is as before the call and no
  buffer is held. The header count and the block length are back to 0, so the next
  call reads a new header.
\<close>

theorem invalid_length_rejected:
  assumes "hap_session c = Some s" and "encrypted_mode c"
    and "encrypted (crypto_rx c) = None"
    and "recv_len_header (crypto_rx c) w = (None, rx1, w1)"
    and "decode_block_len (len_buf rx1) = 0 \<or> block_max < decode_block_len (len_buf rx1) \<or>
         buffer_size < decode_block_len (len_buf rx1)"
  shows "rtsp_crypto_read_block block_max a w (Some c) buffer buffer_size =
           (-1, w1, Some (c\<lparr>crypto_rx := rx1\<lparr>len_received := 0, block_len := 0\<rparr>\<rparr>), buffer) \<and>
         mallocs w1 = mallocs w \<and> live_blocks w1 = live_blocks w \<and>
         malloc_script w1 = malloc_script w \<and>
         encrypted rx1 = None \<and> encrypted_len rx1 = encrypted_len (crypto_rx c) \<and>
         encrypted_received rx1 = encrypted_received (crypto_rx c)"
proof -
  from recv_len_header_keeps[OF assms(4)]
  have w1: "w1 = w\<lparr>recv_script := recv_script w1\<rparr>"
    and rx1: "rx1 = (crypto_rx c)\<lparr>len_buf := len_buf rx1, len_received := len_received rx1\<rparr>"
    by simp_all
  have e: "encrypted rx1 = None" "encrypted_len rx1 = encrypted_len (crypto_rx c)"
    "encrypted_received rx1 = encrypted_received (crypto_rx c)"
    using assms(3) by (subst rx1, simp)+
  have m: "mallocs w1 = mallocs w" "live_blocks w1 = live_blocks w"
    "malloc_script w1 = malloc_script w"
    by (subst w1, simp)+
  have "alloc_encrypted block_max rx1 w1 buffer_size =
      (Some (-1), rx1\<lparr>len_received := 0, block_len := 0\<rparr>, w1)"
    using e(1) assms(5) by (auto simp add: alloc_encrypted_def Let_def)
  then show ?thesis
    using assms(1,2,4) e m by (simp add: rtsp_crypto_read_block_def)
qed

theorem invalid_length_rejected_witness:
  "hap_session demo_conn = Some demo_session \<and> encrypted_mode demo_conn \<and>
   encrypted (crypto_rx demo_conn) = None \<and>
   recv_len_header (crypto_rx demo_conn) (quiet_world\<lparr>recv_script := [Data [0, 0]]\<rparr>) =
     (None, idle_rx\<lparr>len_buf := [0, 0], len_received := 2\<rparr>, quiet_world\<lparr>recv_script := []\<rparr>) \<and>
   decode_block_len (len_buf (idle_rx\<lparr>len_buf := [0, 0], len_received := 2\<rparr>)) = 0 \<and>
   rtsp_crypto_read_block 1024 xor_aead (quiet_world\<lparr>recv_script := [Data [0, 0]]\<rparr>)
       (Some demo_conn) (replicate 16 0) 16 =
     (-1, quiet_world\<lparr>recv_script := []\<rparr>,
      Some (demo_conn\<lparr>crypto_rx :=
         idle_rx\<lparr>len_buf := [0, 0], len_received := 2\<rparr>\<lparr>len_received := 0, block_len := 0\<rparr>\<rparr>),
      replicate 16 0) \<and>
   mallocs (quiet_world\<lparr>recv_script := []\<rparr>) =
     mallocs (quiet_world\<lparr>recv_script := [Data [0, 0]]\<rparr>)"
proof -
  have h1: "hap_session demo_conn = Some demo_session" and h2: "encrypted_mode demo_conn"
    and h3: "encrypted (crypto_rx demo_conn) = None"
    by (simp_all add: demo_conn_def idle_rx_def)
  have h4: "recv_len_header (crypto_rx demo_conn) (quiet_world\<lparr>recv_script := [Data [0, 0]]\<rparr>) =
     (None, idle_rx\<lparr>len_buf := [0, 0], len_received := 2\<rparr>, quiet_world\<lparr>recv_script := []\<rparr>)"
    using recv_len_header_chunk[of "crypto_rx demo_conn"
        "quiet_world\<lparr>recv_script := [Data [0, 0]]\<rparr>" 0 0 "[]" "[]"]
    by (simp add: demo_conn_def idle_rx_def write_at_def)
  have h5: "decode_block_len (len_buf (idle_rx\<lparr>len_buf := [0, 0], len_received := 2\<rparr>)) = 0"
    by (simp add: decode_block_len_def)
  from invalid_length_rejected[OF h1 h2 h3 h4 disjI1[OF h5], where block_max = 1024
      and buffer_size = 16 and a = xor_aead and buffer = "replicate 16 0"]
  show ?thesis using h1 h2 h3 h4 h5 by simp
qed

lemma write_at_length: "off + length src \<le> length dst \<Longrightarrow> length (write_at dst off src) = length dst"
  by (simp add: write_at_def)

lemma release_rx_None: "release_rx rx w = (rx', w') \<Longrightarrow> encrypted rx' = None"
  by (auto simp: release_rx_def)

lemma recv_encrypted_inv:
  assumes "recv_encrypted rx w = (r, rx', w')" "encrypted rx = Some buf"
    "length buf = encrypted_len rx"
  shows "(r = Some (-1) \<and> encrypted rx' = None) \<or>
         ((r = Some 0 \<or> r = None \<and> encrypted_len rx \<le> encrypted_received rx') \<and>
          (\<exists>buf'. rx' = rx\<lparr>encrypted := Some buf', encrypted_received := encrypted_received rx'\<rparr> \<and>
             length buf' = encrypted_len rx))"
  using assms
proof (induction rx w arbitrary: r rx' w' buf rule: recv_encrypted.induct)
  case (1 rx w)
  show ?case
  proof (cases "encrypted_received rx < encrypted_len rx")
    case False
    with 1(2) have "r = None" "rx' = rx" by (simp_all add: recv_encrypted_full)
    then show ?thesis using 1(3,4) False by (auto intro!: exI[of _ buf])
  next
    case True
    obtain res w0 where rc: "recv w (encrypted_len rx - encrypted_received rx) = (res, w0)"
      by (cases "recv w (encrypted_len rx - encrypted_received rx)")
    show ?thesis
    proof (cases res)
      case (Got bs)
      let ?buf = "write_at buf (encrypted_received rx) bs"
      let ?rx = "rx\<lparr>encrypted := map_option (\<lambda>buf. write_at buf (encrypted_received rx) bs)
                                   (encrypted rx),
                    encrypted_received := encrypted_received rx + length bs\<rparr>"
      from recv_Got[OF rc[unfolded Got]] have bs: "length bs \<le> encrypted_len rx - encrypted_received rx"
        by simp
      have "recv_encrypted rx w = recv_encrypted ?rx w0"
        using True rc Got by (subst recv_encrypted.simps) simp
      with 1(2) have a: "recv_encrypted ?rx w0 = (r, rx', w')" by simp
      have b: "encrypted ?rx = Some ?buf" using 1(3) by simp
      have c: "length ?buf = encrypted_len ?rx"
        using 1(4) bs True by (simp add: write_at_length)
      from 1(1)[OF True rc[symmetric] Got a b c]
      show ?thesis by auto
    next
      case Again
      then have "recv_encrypted rx w = (Some 0, rx, w0)"
        using True rc by (subst recv_encrypted.simps) simp
      with 1(2) have "r = Some 0" "rx' = rx" by simp_all
      then show ?thesis using 1(3,4) by (auto intro!: exI[of _ buf])
    next
      case Failed
      then have "recv_encrypted rx w = (Some (-1), fst (release_rx rx w0), snd (release_rx rx w0))"
        using True rc by (subst recv_encrypted.simps) (simp add: case_prod_beta)
      with 1(2) show ?thesis by (auto simp: release_rx_def)
    next
      case Closed
      then have "recv_encrypted rx w = (Some (-1), fst (release_rx rx w0), snd (release_rx rx w0))"
        using True rc by (subst recv_encrypted.simps) (simp add: case_prod_beta)
      with 1(2) show ?thesis by (auto simp: release_rx_def)
    qed
  qed
qed

lemma recv_len_header_None:
  "recv_len_header rx w = (None, rx', w') \<Longrightarrow> 2 \<le> len_received rx'"
proof (induction rx w arbitrary: rx' w' rule: recv_len_header.induct)
  case (1 rx w)
  show ?case
  proof (cases "len_received rx < 2")
    case False
    with 1(2) show ?thesis by (simp add: recv_len_header_full)
  next
    case True
    obtain res w0 where rc: "recv w (2 - len_received rx) = (res, w0)"
      by (cases "recv w (2 - len_received rx)")
    show ?thesis
    proof (cases res)
      case (Got bs)
      let ?rx = "rx\<lparr>len_buf := write_at (len_buf rx) (len_received rx) bs,
                    len_received := len_received rx + length bs\<rparr>"
      have "recv_len_header rx w = recv_len_header ?rx w0"
        using True rc Got by (subst recv_len_header.simps) simp
      with 1(2) have "recv_len_header ?rx w0 = (None, rx', w')" by simp
      from 1(1)[OF True rc[symmetric] Got this] show ?thesis .
    qed (use 1(2) True rc in \<open>subst (asm) recv_len_header.simps, simp\<close>)+
  qed
qed

lemma recv_len_header_inv:
  assumes "rx_inv cap rx" "recv_len_header rx w = (r, rx', w')"
  shows "rx_inv cap rx' \<and> encrypted rx' = encrypted rx"
proof (cases "encrypted rx")
  case None
  from recv_len_header_keeps[OF assms(2)]
  have "rx' = rx\<lparr>len_buf := len_buf rx', len_received := len_received rx'\<rparr>" by simp
  then have "encrypted rx' = encrypted rx" by (metis crypto_rx.select_convs(4) crypto_rx.surjective crypto_rx.update_convs(1,2))
  with None show ?thesis by (simp add: rx_inv_def)
next
  case (Some buf)
  with assms(1) have "2 \<le> len_received rx" by (simp add: rx_inv_def)
  with assms show ?thesis by (simp add: recv_len_header_full)
qed

lemma alloc_encrypted_inv:
  assumes "rx_inv cap rx" "2 \<le> len_received rx"
    "alloc_encrypted block_max rx w cap = (r, rx', w')"
  shows "(r = Some (-1) \<and> encrypted rx' = None) \<or>
         (r = None \<and> rx_inv cap rx' \<and> encrypted rx' \<noteq> None \<and> len_buf rx' = len_buf rx)"
  using assms
  by (auto simp: alloc_encrypted_def rx_inv_def Let_def malloc_def
           split: if_splits list.splits option.splits)

lemma decrypt_block_fits:
  assumes a: "aead_lengths a" and inv: "rx_inv cap rx" and buf: "encrypted rx = Some buf"
    and d: "decrypt_block a s rx w buffer cap = (r, s', rx', w', buffer')"
  shows "encrypted rx' = None \<and> len_buf rx' = len_buf rx \<and>
         (decrypt_nonce s' \<noteq> decrypt_nonce s \<longrightarrow>
            0 < r \<and> r \<le> int cap \<and> r = int (decode_block_len (len_buf rx)))"
proof (cases "aead_decrypt a (decrypt_key s) (nonce12 (decrypt_nonce s)) (len_buf rx)
                (take (encrypted_len rx) buf)")
  case None
  with d buf show ?thesis by (auto simp: decrypt_block_def release_rx_def)
next
  case (Some p)
  from inv buf have i: "block_len rx = decode_block_len (len_buf rx)"
    "encrypted_len rx = block_len rx + 16" "length buf = encrypted_len rx"
    "0 < block_len rx" "block_len rx \<le> cap" by (simp_all add: rx_inv_def)
  from a Some have "length (take (encrypted_len rx) buf) = length p + 16"
    unfolding aead_lengths_def by blast
  with i have p: "length p = block_len rx" by simp
  with d buf Some i show ?thesis
    by (auto simp: decrypt_block_def release_rx_def Let_def)
qed

text \<open>
  C10 (as amended). For a caller that passes the same capacity in every call that
  works on a frame, and a cipher whose plaintexts are 16 bytes shorter than their
  ciphertexts: the state between calls keeps the invariant \<open>rx_inv\<close>, and a call in
  which decryption succeeds (the inbound counter moves) returns the declared block
  length, which is positive and at most the capacity; the check of the decrypted
  length against the capacity never fires.
\<close>

theorem decrypted_length_fits:
  assumes "aead_lengths a" and "rx_inv buffer_size (crypto_rx c)"
    and "hap_session c = Some s"
    and "rtsp_crypto_read_block block_max a w (Some c) buffer buffer_size =
           (r, w', Some c', buffer')"
    and "hap_session c' = Some s'"
  shows "rx_inv buffer_size (crypto_rx c') \<and>
         (decrypt_nonce s' \<noteq> decrypt_nonce s \<longrightarrow>
            0 < r \<and> r \<le> int buffer_size \<and>
            r = int (decode_block_len (len_buf (crypto_rx c'))))"
proof (cases "encrypted_mode c")
  case False
  with assms show ?thesis by (auto simp: rtsp_crypto_read_block_def)
next
  case True
  obtain r1 rx1 w1 where h: "recv_len_header (crypto_rx c) w = (r1, rx1, w1)"
    by (cases "recv_len_header (crypto_rx c) w") auto
  from recv_len_header_inv[OF assms(2) h] have inv1: "rx_inv buffer_size rx1" by simp
  show ?thesis
  proof (cases r1)
    case (Some r0)
    with assms True h inv1 show ?thesis by (auto simp: rtsp_crypto_read_block_def)
  next
    case None
    with h have l1: "2 \<le> len_received rx1" by (simp add: recv_len_header_None)
    obtain r2 rx2 w2 where al: "alloc_encrypted block_max rx1 w1 buffer_size = (r2, rx2, w2)"
      by (cases "alloc_encrypted block_max rx1 w1 buffer_size") auto
    note ai = alloc_encrypted_inv[OF inv1 l1 al]
    show ?thesis
    proof (cases r2)
      case (Some r0)
      with ai have "encrypted rx2 = None" by auto
      then have "rx_inv buffer_size rx2" by (simp add: rx_inv_def)
      with assms True h None al Some show ?thesis by (auto simp: rtsp_crypto_read_block_def)
    next
      case n2: None
      with ai obtain buf where inv2: "rx_inv buffer_size rx2" and buf: "encrypted rx2 = Some buf"
        by auto
      then have len: "length buf = encrypted_len rx2" by (simp add: rx_inv_def)
      obtain r3 rx3 w3 where re: "recv_encrypted rx2 w2 = (r3, rx3, w3)"
        by (cases "recv_encrypted rx2 w2") auto
      from recv_encrypted_inv[OF re buf len]
      consider (err) "r3 = Some (-1)" "encrypted rx3 = None"
        | (more) buf' where "r3 = Some 0 \<or> r3 = None"
            "rx3 = rx2\<lparr>encrypted := Some buf', encrypted_received := encrypted_received rx3\<rparr>"
            "length buf' = encrypted_len rx2"
        by (elim disjE conjE exE) blast+
      then show ?thesis
      proof cases
        case err
        then have "rx_inv buffer_size rx3" by (simp add: rx_inv_def)
        with assms True h None al n2 re err show ?thesis
          by (auto simp: rtsp_crypto_read_block_def)
      next
        case more
        have inv3: "rx_inv buffer_size rx3" and buf3: "encrypted rx3 = Some buf'"
          using inv2 buf more(3) by (subst more(2), simp add: rx_inv_def)+
        show ?thesis
        proof (cases r3)
          case (Some r0)
          with assms True h None al n2 re inv3 show ?thesis
            by (auto simp: rtsp_crypto_read_block_def)
        next
          case n3: None
          obtain r4 s4 rx4 w4 b4 where
            d: "decrypt_block a s rx3 w3 buffer buffer_size = (r4, s4, rx4, w4, b4)"
            by (cases "decrypt_block a s rx3 w3 buffer buffer_size") auto
          note f = decrypt_block_fits[OF assms(1) inv3 buf3 d]
          from f have "rx_inv buffer_size rx4" by (simp add: rx_inv_def)
          with assms True h None al n2 re n3 d f show ?thesis
            by (auto simp: rtsp_crypto_read_block_def)
        qed
      qed
    qed
  qed
qed

theorem decrypted_length_fits_witness:
  "aead_lengths xor_aead \<and> rx_inv 16 (crypto_rx demo_conn) \<and>
   hap_session demo_conn = Some demo_session \<and>
   rtsp_crypto_read_block 1024 xor_aead
       (quiet_world\<lparr>recv_script :=
          [Data [2, 0, 65, 96, 0, 0, 0, 0, 0, 0, 0, 0, 0, 0, 0, 0, 0, 0, 0, 172]]\<rparr>)
       (Some demo_conn) (replicate 16 0) 16 =
     (2, quiet_world\<lparr>mallocs := 1\<rparr>,
      Some (demo_conn\<lparr>hap_session := Some (demo_session\<lparr>decrypt_nonce := 42\<rparr>),
                      crypto_rx := idle_rx\<lparr>len_buf := [2, 0]\<rparr>\<rparr>),
      [72, 105] @ replicate 14 0) \<and>
   hap_session (demo_conn\<lparr>hap_session := Some (demo_session\<lparr>decrypt_nonce := 42\<rparr>),
                         crypto_rx := idle_rx\<lparr>len_buf := [2, 0]\<rparr>\<rparr>) =
     Some (demo_session\<lparr>decrypt_nonce := 42\<rparr>) \<and>
   rx_inv 16 (crypto_rx (demo_conn\<lparr>hap_session := Some (demo_session\<lparr>decrypt_nonce := 42\<rparr>),
                         crypto_rx := idle_rx\<lparr>len_buf := [2, 0]\<rparr>\<rparr>)) \<and>
   decrypt_nonce (demo_session\<lparr>decrypt_nonce := 42\<rparr>) \<noteq> decrypt_nonce demo_session \<and>
   (0 :: int) < 2 \<and> (2 :: int) \<le> int 16 \<and>
   (2 :: int) = int (decode_block_len (len_buf (crypto_rx
       (demo_conn\<lparr>hap_session := Some (demo_session\<lparr>decrypt_nonce := 42\<rparr>),
                    crypto_rx := idle_rx\<lparr>len_buf := [2, 0]\<rparr>\<rparr>))))"
proof -
  have h2: "rx_inv 16 (crypto_rx demo_conn)"
    by (simp add: rx_inv_def demo_conn_def idle_rx_def)
  have h3: "hap_session demo_conn = Some demo_session" by (simp add: demo_conn_def)
  have h4: "rtsp_crypto_read_block 1024 xor_aead
       (quiet_world\<lparr>recv_script :=
          [Data [2, 0, 65, 96, 0, 0, 0, 0, 0, 0, 0, 0, 0, 0, 0, 0, 0, 0, 0, 172]]\<rparr>)
       (Some demo_conn) (replicate 16 0) 16 =
     (2, quiet_world\<lparr>mallocs := 1\<rparr>,
      Some (demo_conn\<lparr>hap_session := Some (demo_session\<lparr>decrypt_nonce := 42\<rparr>),
                      crypto_rx := idle_rx\<lparr>len_buf := [2, 0]\<rparr>\<rparr>),
      [72, 105] @ replicate 14 0)"
    by code_simp
  have h5: "hap_session (demo_conn\<lparr>hap_session := Some (demo_session\<lparr>decrypt_nonce := 42\<rparr>),
                         crypto_rx := idle_rx\<lparr>len_buf := [2, 0]\<rparr>\<rparr>) =
     Some (demo_session\<lparr>decrypt_nonce := 42\<rparr>)" by simp
  have ne: "decrypt_nonce (demo_session\<lparr>decrypt_nonce := 42\<rparr>) \<noteq> decrypt_nonce demo_session"
    by (simp add: demo_session_def)
  from decrypted_length_fits[OF xor_aead_lengths h2 h3 h4 h5] ne
  show ?thesis using xor_aead_lengths h2 h3 h4 h5 by blast
qed

text \<open>
  C10, as stated, fails when the call that completes the frame passes a smaller
  capacity than the call that checked the header: the first call (capacity 16) reads
  the header of a 2-byte block and waits; the second call (capacity 1) receives the
  ciphertext, decryption succeeds, the counter moves to 42, and the check of the
  decrypted length against the capacity returns -1.
\<close>

theorem smaller_capacity_reaches_length_check:
  "aead_lengths xor_aead \<and>
   rtsp_crypto_read_block 1024 xor_aead (quiet_world\<lparr>recv_script := [Data [2, 0]]\<rparr>)
       (Some demo_conn) (replicate 16 0) 16 =
     (0, quiet_world\<lparr>mallocs := 1, live_blocks := 1\<rparr>,
      Some (demo_conn\<lparr>crypto_rx :=
        \<lparr>len_buf = [2, 0], len_received = 2, block_len = 2, encrypted = Some (replicate 18 0),
         encrypted_len = 18, encrypted_received = 0\<rparr>\<rparr>),
      replicate 16 0) \<and>
   aead_decrypt xor_aead (decrypt_key demo_session) (nonce12 (decrypt_nonce demo_session)) [2, 0]
       [65, 96, 0, 0, 0, 0, 0, 0, 0, 0, 0, 0, 0, 0, 0, 0, 0, 172] = Some [72, 105] \<and>
   rtsp_crypto_read_block 1024 xor_aead
       (quiet_world\<lparr>recv_script := [Data [65, 96, 0, 0, 0, 0, 0, 0, 0, 0, 0, 0, 0, 0, 0, 0, 0, 172]],
          mallocs := 1, live_blocks := 1\<rparr>)
       (Some (demo_conn\<lparr>crypto_rx :=
        \<lparr>len_buf = [2, 0], len_received = 2, block_len = 2, encrypted = Some (replicate 18 0),
         encrypted_len = 18, encrypted_received = 0\<rparr>\<rparr>))
       (replicate 16 0) 1 =
     (-1, quiet_world\<lparr>mallocs := 1\<rparr>,
      Some (demo_conn\<lparr>hap_session := Some (demo_session\<lparr>decrypt_nonce := 42\<rparr>),
                      crypto_rx := idle_rx\<lparr>len_buf := [2, 0]\<rparr>\<rparr>),
      [72, 105] @ replicate 14 0)"
proof (intro conjI)
  show "aead_lengths xor_aead" by (rule xor_aead_lengths)
qed code_simp+

text \<open>
  C5. A hard read error (or the peer's close) while the length header is incomplete
  returns -1 and leaves the received count at 1: the partial-read state is not reset.
  The next call takes the first byte of the next frame for the second byte of the old
  header: a frame that a connection between frames reads (result 2) is rejected.
\<close>

theorem header_error_keeps_partial_state:
  "rtsp_crypto_read_block 1024 xor_aead (quiet_world\<lparr>recv_script := [Data [5], HardError]\<rparr>)
       (Some demo_conn) (replicate 16 0) 16 =
     (-1, quiet_world,
      Some (demo_conn\<lparr>crypto_rx := idle_rx\<lparr>len_buf := [5, 0], len_received := 1\<rparr>\<rparr>),
      replicate 16 0) \<and>
   rtsp_crypto_read_block 1024 xor_aead (quiet_world\<lparr>recv_script := [Data [5], PeerClosed]\<rparr>)
       (Some demo_conn) (replicate 16 0) 16 =
     (-1, quiet_world,
      Some (demo_conn\<lparr>crypto_rx := idle_rx\<lparr>len_buf := [5, 0], len_received := 1\<rparr>\<rparr>),
      replicate 16 0) \<and>
   fst (rtsp_crypto_read_block 1024 xor_aead
       (quiet_world\<lparr>recv_script :=
          [Data [2, 0, 65, 96, 0, 0, 0, 0, 0, 0, 0, 0, 0, 0, 0, 0, 0, 0, 0, 172]]\<rparr>)
       (Some (demo_conn\<lparr>crypto_rx := idle_rx\<lparr>len_buf := [5, 0], len_received := 1\<rparr>\<rparr>))
       (replicate 16 0) 16) = -1 \<and>
   fst (rtsp_crypto_read_block 1024 xor_aead
       (quiet_world\<lparr>recv_script :=
          [Data [2, 0, 65, 96, 0, 0, 0, 0, 0, 0, 0, 0, 0, 0, 0, 0, 0, 0, 0, 172]]\<rparr>)
       (Some demo_conn) (replicate 16 0) 16) = 2"
  by (intro conjI) code_simp+

lemma nonce12_bytes:
  "nonce12 n =
     [0, 0, 0, 0, ucast n, ucast (drop_bit 8 n), ucast (drop_bit 16 n), ucast (drop_bit 24 n),
      ucast (drop_bit 32 n), ucast (drop_bit 40 n), ucast (drop_bit 48 n), ucast (drop_bit 56 n)]"
  by (simp add: nonce12_def write_at_def le64_def eval_nat_numeral upt_rec)

lemma spec_frames_enumerate:
  "spec_frames a key (n + of_nat k) cs =
     concat (map (\<lambda>(i, ch). spec_le16 (length ch) @
                    aead_encrypt a key (nonce12 (n + of_nat i)) (spec_le16 (length ch)) ch)
                 (enumerate k cs))"
proof (induction cs arbitrary: k)
  case Nil
  show ?case by simp
next
  case (Cons c cs)
  have e: "n + of_nat k + 1 = n + of_nat (Suc k)" by simp
  show ?case unfolding spec_frames.simps e Cons[of "Suc k"]
    by (simp add: spec_frame_def)
qed

lemma write_frames_all:
  assumes bm: "0 < block_max" "block_max \<le> 65535"
    and ok: "sends_ok w" "mallocs_ok w" "encrypt_lengths a"
  shows "\<exists>w'. write_frames block_max a dat 0 w s =
            Some (0, w', s\<lparr>encrypt_nonce :=
                    encrypt_nonce s + of_nat (length (spec_chunks block_max dat))\<rparr>) \<and>
          wire w' = wire w @
            spec_frames a (encrypt_key s) (encrypt_nonce s) (spec_chunks block_max dat)"
proof -
  from write_frames_any[OF bm, of a dat 0 w s]
  obtain r w' k t where any:
    "write_frames block_max a dat 0 w s =
       Some (r, w', s\<lparr>encrypt_nonce := encrypt_nonce s + of_nat k\<rparr>)"
    "wire w' = wire w @
       spec_frames a (encrypt_key s) (encrypt_nonce s) (take k (spec_chunks block_max dat)) @ t"
    "(r = 0 \<and> k = length (spec_chunks block_max dat) \<and> t = []) \<or> r = -1"
    by auto
  from write_frames_ok[OF bm ok(3) ok(1,2), of dat 0 s] any(1) have "r = 0" by auto
  with any show ?thesis by auto
qed

text \<open>
  C4 (as amended). In both directions the nonce given to the AEAD is 12 bytes: four
  zero bytes, then (offsets 4 to 11) the eight bytes of the direction's 64-bit counter,
  least significant first. The writer puts on the wire, for chunk number \<open>i\<close>, the
  two length bytes and the ciphertext made under the outbound key with the nonce of
  counter \<open>+ i\<close> and those two length bytes as associated data; the reader decrypts
  under the inbound key with the nonce of the inbound counter and the two length bytes
  it received as associated data.
\<close>

theorem aead_nonce_and_associated_data:
  assumes "0 < block_max" and "block_max \<le> 65535"
    and "hap_session ctx = Some stx" and "encrypted_mode ctx"
    and "sends_ok wt" and "mallocs_ok wt" and "encrypt_lengths a"
    and "hap_session crx = Some srx" and "encrypted_mode crx"
    and "len_received (crypto_rx crx) = 0" and "encrypted (crypto_rx crx) = None"
    and "length (len_buf (crypto_rx crx)) = 2"
    and "recv_script wr = Data (h0 # h1 # ct) # es" and "malloc_ok wr"
    and "0 < decode_block_len [h0, h1]" and "decode_block_len [h0, h1] \<le> block_max"
    and "decode_block_len [h0, h1] \<le> buffer_size"
    and "length ct = decode_block_len [h0, h1] + 16"
  shows "nonce12 n =
           [0, 0, 0, 0, ucast n, ucast (drop_bit 8 n), ucast (drop_bit 16 n),
            ucast (drop_bit 24 n), ucast (drop_bit 32 n), ucast (drop_bit 40 n),
            ucast (drop_bit 48 n), ucast (drop_bit 56 n)] \<and>
         (\<exists>wt'. rtsp_crypto_write_frame block_max a wt (Some ctx) dat =
                  Some (0, wt',
                    Some (ctx\<lparr>hap_session := Some (stx\<lparr>encrypt_nonce :=
                      encrypt_nonce stx + of_nat (length (spec_chunks block_max dat))\<rparr>)\<rparr>)) \<and>
                wire wt' = wire wt @
                  concat (map (\<lambda>(i, ch). spec_le16 (length ch) @
                                 aead_encrypt a (encrypt_key stx)
                                   (nonce12 (encrypt_nonce stx + of_nat i))
                                   (spec_le16 (length ch)) ch)
                              (enumerate 0 (spec_chunks block_max dat)))) \<and>
         fst (rtsp_crypto_read_block block_max a wr (Some crx) buffer buffer_size) =
           (case aead_decrypt a (decrypt_key srx) (nonce12 (decrypt_nonce srx)) [h0, h1] ct of
              None \<Rightarrow> -1
            | Some p \<Rightarrow> if buffer_size < length p then -1 else int (length p))"
proof (intro conjI)
  show "nonce12 n =
           [0, 0, 0, 0, ucast n, ucast (drop_bit 8 n), ucast (drop_bit 16 n),
            ucast (drop_bit 24 n), ucast (drop_bit 32 n), ucast (drop_bit 40 n),
            ucast (drop_bit 48 n), ucast (drop_bit 56 n)]"
    by (rule nonce12_bytes)
next
  from write_frames_all[OF assms(1,2,5,6,7), of dat stx]
  obtain wt' where w: "write_frames block_max a dat 0 wt stx =
            Some (0, wt', stx\<lparr>encrypt_nonce :=
                    encrypt_nonce stx + of_nat (length (spec_chunks block_max dat))\<rparr>)"
    "wire wt' = wire wt @
       spec_frames a (encrypt_key stx) (encrypt_nonce stx) (spec_chunks block_max dat)"
    by blast
  have "spec_frames a (encrypt_key stx) (encrypt_nonce stx) (spec_chunks block_max dat) =
      concat (map (\<lambda>(i, ch). spec_le16 (length ch) @
                     aead_encrypt a (encrypt_key stx) (nonce12 (encrypt_nonce stx + of_nat i))
                       (spec_le16 (length ch)) ch)
                  (enumerate 0 (spec_chunks block_max dat)))"
    using spec_frames_enumerate[of a "encrypt_key stx" "encrypt_nonce stx" 0] by simp
  with w assms(3,4)
  show "\<exists>wt'. rtsp_crypto_write_frame block_max a wt (Some ctx) dat =
                  Some (0, wt',
                    Some (ctx\<lparr>hap_session := Some (stx\<lparr>encrypt_nonce :=
                      encrypt_nonce stx + of_nat (length (spec_chunks block_max dat))\<rparr>)\<rparr>)) \<and>
                wire wt' = wire wt @
                  concat (map (\<lambda>(i, ch). spec_le16 (length ch) @
                                 aead_encrypt a (encrypt_key stx)
                                   (nonce12 (encrypt_nonce stx + of_nat i))
                                   (spec_le16 (length ch)) ch)
                              (enumerate 0 (spec_chunks block_max dat)))"
    by (intro exI[of _ wt']) (simp add: rtsp_crypto_write_frame_def)
next
  note rd = read_block_one_chunk[OF assms(8,9,10,11,12,13,14) refl assms(15,16,17,18),
      of a buffer]
  show "fst (rtsp_crypto_read_block block_max a wr (Some crx) buffer buffer_size) =
           (case aead_decrypt a (decrypt_key srx) (nonce12 (decrypt_nonce srx)) [h0, h1] ct of
              None \<Rightarrow> -1
            | Some p \<Rightarrow> if buffer_size < length p then -1 else int (length p))"
    unfolding rd using assms(18)
    by (simp add: decrypt_block_def release_rx_def Let_def split: option.splits)
qed

theorem aead_nonce_and_associated_data_witness:
  "(0 :: nat) < 4 \<and>
   (4 :: nat) \<le> 65535 \<and>
   hap_session demo_conn = Some demo_session \<and>
   encrypted_mode demo_conn \<and>
   sends_ok quiet_world \<and>
   mallocs_ok quiet_world \<and>
   encrypt_lengths xor_aead \<and>
   len_received (crypto_rx demo_conn) = 0 \<and>
   encrypted (crypto_rx demo_conn) = None \<and>
   length (len_buf (crypto_rx demo_conn)) = 2 \<and>
   recv_script (quiet_world\<lparr>recv_script := [Data (2 # 0 # [65, 96, 0, 0, 0, 0, 0, 0, 0, 0, 0, 0, 0, 0, 0, 0, 0, 172])]\<rparr>) = Data (2 # 0 # [65, 96, 0, 0, 0, 0, 0, 0, 0, 0, 0, 0, 0, 0, 0, 0, 0, 172]) # [] \<and>
   malloc_ok (quiet_world\<lparr>recv_script := [Data (2 # 0 # [65, 96, 0, 0, 0, 0, 0, 0, 0, 0, 0, 0, 0, 0, 0, 0, 0, 172])]\<rparr>) \<and>
   0 < decode_block_len [2, 0] \<and>
   decode_block_len [2, 0] \<le> 4 \<and>
   decode_block_len [2, 0] \<le> 16 \<and>
   length ([65, 96, 0, 0, 0, 0, 0, 0, 0, 0, 0, 0, 0, 0, 0, 0, 0, 172] :: byte list) = decode_block_len [2, 0] + 16 \<and>
   nonce12 41 =
     [0, 0, 0, 0, ucast (41 :: 64 word), ucast (drop_bit 8 (41 :: 64 word)),
      ucast (drop_bit 16 (41 :: 64 word)), ucast (drop_bit 24 (41 :: 64 word)),
      ucast (drop_bit 32 (41 :: 64 word)), ucast (drop_bit 40 (41 :: 64 word)),
      ucast (drop_bit 48 (41 :: 64 word)), ucast (drop_bit 56 (41 :: 64 word))] \<and>
   (\<exists>wt'. rtsp_crypto_write_frame 4 xor_aead quiet_world (Some demo_conn) [1, 2, 3, 4, 5] =
            Some (0, wt',
              Some (demo_conn\<lparr>hap_session := Some (demo_session\<lparr>encrypt_nonce :=
                encrypt_nonce demo_session +
                of_nat (length (spec_chunks 4 [1, 2, 3, 4, 5 :: byte]))\<rparr>)\<rparr>)) \<and>
          wire wt' = wire quiet_world @
            concat (map (\<lambda>(i, ch). spec_le16 (length ch) @
                           aead_encrypt xor_aead (encrypt_key demo_session)
                             (nonce12 (encrypt_nonce demo_session + of_nat i))
                             (spec_le16 (length ch)) ch)
                        (enumerate 0 (spec_chunks 4 [1, 2, 3, 4, 5])))) \<and>
   fst (rtsp_crypto_read_block 4 xor_aead (quiet_world\<lparr>recv_script := [Data (2 # 0 # [65, 96, 0, 0, 0, 0, 0, 0, 0, 0, 0, 0, 0, 0, 0, 0, 0, 172])]\<rparr>) (Some demo_conn) (replicate 16 0) 16) =
     (case aead_decrypt xor_aead (decrypt_key demo_session) (nonce12 (decrypt_nonce demo_session))
             [2, 0] [65, 96, 0, 0, 0, 0, 0, 0, 0, 0, 0, 0, 0, 0, 0, 0, 0, 172] of
        None \<Rightarrow> -1
      | Some p \<Rightarrow> if 16 < length p then -1 else int (length p))"
proof -
  have b1: "(0 :: nat) < 4"
    by simp
  have b2: "(4 :: nat) \<le> 65535"
    by simp
  have c1: "hap_session demo_conn = Some demo_session"
    by (simp add: demo_conn_def)
  have c2: "encrypted_mode demo_conn"
    by (simp add: demo_conn_def)
  have w1: "sends_ok quiet_world"
    by (simp add: sends_ok_def quiet_world_def)
  have w2: "mallocs_ok quiet_world"
    by (simp add: mallocs_ok_def quiet_world_def)
  have w3: "encrypt_lengths xor_aead"
    by (simp add: encrypt_lengths_def xor_aead_def xor_encrypt_def xor_tag_def Let_def)
  have r1: "len_received (crypto_rx demo_conn) = 0"
    by (simp add: demo_conn_def idle_rx_def)
  have r2: "encrypted (crypto_rx demo_conn) = None"
    by (simp add: demo_conn_def idle_rx_def)
  have r3: "length (len_buf (crypto_rx demo_conn)) = 2"
    by (simp add: demo_conn_def idle_rx_def)
  have s1: "recv_script (quiet_world\<lparr>recv_script := [Data (2 # 0 # [65, 96, 0, 0, 0, 0, 0, 0, 0, 0, 0, 0, 0, 0, 0, 0, 0, 172])]\<rparr>) = Data (2 # 0 # [65, 96, 0, 0, 0, 0, 0, 0, 0, 0, 0, 0, 0, 0, 0, 0, 0, 172]) # []"
    by simp
  have s2: "malloc_ok (quiet_world\<lparr>recv_script := [Data (2 # 0 # [65, 96, 0, 0, 0, 0, 0, 0, 0, 0, 0, 0, 0, 0, 0, 0, 0, 172])]\<rparr>)"
    by (simp add: malloc_ok_def quiet_world_def)
  have l1: "0 < decode_block_len [2, 0]"
    by (simp add: decode_block_len_def)
  have l2: "decode_block_len [2, 0] \<le> 4"
    by (simp add: decode_block_len_def)
  have l3: "decode_block_len [2, 0] \<le> 16"
    by (simp add: decode_block_len_def)
  have l4: "length ([65, 96, 0, 0, 0, 0, 0, 0, 0, 0, 0, 0, 0, 0, 0, 0, 0, 172] :: byte list) = decode_block_len [2, 0] + 16"
    by (simp add: decode_block_len_def)
  note t = aead_nonce_and_associated_data[OF b1 b2 c1 c2 w1 w2 w3 c1 c2 r1 r2 r3 s1 s2 l1 l2 l3 l4,
      where n = 41 and dat = "[1, 2, 3, 4, 5]" and buffer = "replicate 16 0"]
  show ?thesis
    using t b1 b2 c1 c2 w1 w2 w3 r1 r2 r3 s1 s2 l1 l2 l3 l4 by blast
qed

text \<open>
  C4, as stated, fails: with the counter \<open>0x0100000000000001\<close> (whose eight bytes
  read the same in either byte order) the first (low) eight bytes of the nonce are not
  the counter's bytes, and the remaining four bytes are not zero.
\<close>

theorem nonce_low_bytes_are_not_the_counter:
  "le64 0x0100000000000001 = [1, 0, 0, 0, 0, 0, 0, 1] \<and>
   rev (le64 0x0100000000000001) = le64 0x0100000000000001 \<and>
   nonce12 0x0100000000000001 = [0, 0, 0, 0, 1, 0, 0, 0, 0, 0, 0, 1] \<and>
   take 8 (nonce12 0x0100000000000001) \<noteq> le64 0x0100000000000001 \<and>
   drop 8 (nonce12 0x0100000000000001) \<noteq> [0, 0, 0, 0]"
  by (intro conjI) code_simp+

lemma recv_encrypted_Got:
  "encrypted_received rx < encrypted_len rx \<Longrightarrow>
   recv w (encrypted_len rx - encrypted_received rx) = (Got bs, w') \<Longrightarrow>
   recv_encrypted rx w =
     recv_encrypted
       (rx\<lparr>encrypted := map_option (\<lambda>buf. write_at buf (encrypted_received rx) bs) (encrypted rx),
           encrypted_received := encrypted_received rx + length bs\<rparr>) w'"
  by (subst recv_encrypted.simps) simp

lemma recv_encrypted_Again:
  "encrypted_received rx < encrypted_len rx \<Longrightarrow>
   recv w (encrypted_len rx - encrypted_received rx) = (Again, w') \<Longrightarrow>
   recv_encrypted rx w = (Some 0, rx, w')"
  by (subst recv_encrypted.simps) simp

lemma recv_len_header_Got:
  "len_received rx < 2 \<Longrightarrow> recv w (2 - len_received rx) = (Got bs, w') \<Longrightarrow>
   recv_len_header rx w =
     recv_len_header
       (rx\<lparr>len_buf := write_at (len_buf rx) (len_received rx) bs,
           len_received := len_received rx + length bs\<rparr>) w'"
  by (subst recv_len_header.simps) simp

lemma recv_len_header_Again:
  "len_received rx < 2 \<Longrightarrow> recv w (2 - len_received rx) = (Again, w') \<Longrightarrow>
   recv_len_header rx w = (Some 0, rx, w')"
  by (subst recv_len_header.simps) simp

lemma recv_one_byte:
  "recv_script w = Data [b] # es \<Longrightarrow> 0 < n \<Longrightarrow> recv w n = (Got [b], w\<lparr>recv_script := es\<rparr>)"
  by (simp add: recv_def Suc_le_eq)

lemma recv_would_block:
  "recv_script w = WouldBlock # es \<Longrightarrow> recv w n = (Again, w\<lparr>recv_script := es\<rparr>)"
  by (simp add: recv_def)

lemma read_block_header_byte1:
  assumes c: "hap_session c = Some s" "encrypted_mode c"
    and rx: "len_received (crypto_rx c) = 0"
    and w: "recv_script w = Data [b] # WouldBlock # es"
  shows "rtsp_crypto_read_block block_max a w (Some c) buffer buffer_size =
     (0, w\<lparr>recv_script := es\<rparr>,
      Some (c\<lparr>crypto_rx := (crypto_rx c)\<lparr>len_buf := write_at (len_buf (crypto_rx c)) 0 [b],
                                            len_received := 1\<rparr>\<rparr>),
      buffer)"
proof -
  have "recv_len_header (crypto_rx c) w =
      (Some 0, (crypto_rx c)\<lparr>len_buf := write_at (len_buf (crypto_rx c)) 0 [b],
                              len_received := 1\<rparr>, w\<lparr>recv_script := es\<rparr>)"
    using rx w
    by (subst recv_len_header_Got[where bs = "[b]" and w' = "w\<lparr>recv_script := WouldBlock # es\<rparr>"])
       (simp_all add: recv_one_byte recv_len_header_Again[where w' = "w\<lparr>recv_script := es\<rparr>"]
          recv_would_block)
  then show ?thesis using c by (simp add: rtsp_crypto_read_block_def)
qed

lemma read_block_header_byte2:
  assumes c: "hap_session c = Some s" "encrypted_mode c"
    and rx: "len_received (crypto_rx c) = 1" "encrypted (crypto_rx c) = None"
    and w: "recv_script w = Data [b] # WouldBlock # es" "malloc_ok w"
    and L: "decode_block_len (write_at (len_buf (crypto_rx c)) 1 [b]) = L"
      "0 < L" "L \<le> block_max" "L \<le> buffer_size"
  shows "rtsp_crypto_read_block block_max a w (Some c) buffer buffer_size =
     (0, w\<lparr>malloc_script := tl (malloc_script w), mallocs := Suc (mallocs w),
            live_blocks := Suc (live_blocks w), recv_script := es\<rparr>,
      Some (c\<lparr>crypto_rx := (crypto_rx c)\<lparr>len_buf := write_at (len_buf (crypto_rx c)) 1 [b],
                 len_received := 2, block_len := L, encrypted_len := L + 16,
                 encrypted_received := 0, encrypted := Some (replicate (L + 16) 0)\<rparr>\<rparr>),
      buffer)"
proof -
  let ?rx1 = "(crypto_rx c)\<lparr>len_buf := write_at (len_buf (crypto_rx c)) 1 [b],
                              len_received := 2\<rparr>"
  let ?w1 = "w\<lparr>recv_script := WouldBlock # es\<rparr>"
  have 1: "recv_len_header (crypto_rx c) w = (None, ?rx1, ?w1)"
    using rx w by (subst recv_len_header.simps) (simp add: recv_def recv_len_header_full)
  let ?rx2 = "?rx1\<lparr>block_len := L, encrypted_len := L + 16, encrypted_received := 0,
                encrypted := Some (replicate (L + 16) 0)\<rparr>"
  let ?w2 = "?w1\<lparr>malloc_script := tl (malloc_script w), mallocs := Suc (mallocs w),
                live_blocks := Suc (live_blocks w)\<rparr>"
  have mok: "malloc_ok ?w1" using w(2) by (simp add: malloc_ok_def)
  have 2: "alloc_encrypted block_max ?rx1 ?w1 buffer_size = (None, ?rx2, ?w2)"
    using rx(2) L malloc_ok_malloc[OF mok] by (simp add: alloc_encrypted_def Let_def)
  have 3: "recv_encrypted ?rx2 ?w2 = (Some 0, ?rx2, ?w2\<lparr>recv_script := es\<rparr>)"
    by (rule recv_encrypted_Again) (simp_all add: recv_would_block)
  show ?thesis
    using c 1 2 3 by (simp add: rtsp_crypto_read_block_def)
qed

lemma read_block_payload_byte:
  assumes c: "hap_session c = Some s" "encrypted_mode c"
    and rx: "2 \<le> len_received (crypto_rx c)" "encrypted (crypto_rx c) = Some buf"
      "encrypted_received (crypto_rx c) = k" "k + 1 < encrypted_len (crypto_rx c)"
    and w: "recv_script w = Data [b] # WouldBlock # es"
  shows "rtsp_crypto_read_block block_max a w (Some c) buffer buffer_size =
     (0, w\<lparr>recv_script := es\<rparr>,
      Some (c\<lparr>crypto_rx := (crypto_rx c)\<lparr>encrypted := Some (write_at buf k [b]),
                                            encrypted_received := k + 1\<rparr>\<rparr>),
      buffer)"
proof -
  have 1: "recv_len_header (crypto_rx c) w = (None, crypto_rx c, w)"
    using rx(1) by (simp add: recv_len_header_full)
  have 2: "alloc_encrypted block_max (crypto_rx c) w buffer_size = (None, crypto_rx c, w)"
    using rx(2) by (simp add: alloc_encrypted_def)
  have 3: "recv_encrypted (crypto_rx c) w =
      (Some 0, (crypto_rx c)\<lparr>encrypted := Some (write_at buf k [b]),
                          encrypted_received := k + 1\<rparr>, w\<lparr>recv_script := es\<rparr>)"
    using rx w
    by (subst recv_encrypted_Got[where bs = "[b]" and w' = "w\<lparr>recv_script := WouldBlock # es\<rparr>"])
       (simp_all add: recv_one_byte recv_encrypted_Again[where w' = "w\<lparr>recv_script := es\<rparr>"]
          recv_would_block)
  show ?thesis
    using c 1 2 3 by (simp add: rtsp_crypto_read_block_def)
qed

lemma read_block_last_byte:
  assumes c: "hap_session c = Some s" "encrypted_mode c"
    and rx: "2 \<le> len_received (crypto_rx c)" "encrypted (crypto_rx c) = Some buf"
      "encrypted_received (crypto_rx c) = k" "k + 1 = encrypted_len (crypto_rx c)"
    and w: "recv_script w = Data [b] # es"
  shows "rtsp_crypto_read_block block_max a w (Some c) buffer buffer_size =
     (case decrypt_block a s
             ((crypto_rx c)\<lparr>encrypted := Some (write_at buf k [b]),
                              encrypted_received := k + 1\<rparr>)
             (w\<lparr>recv_script := es\<rparr>) buffer buffer_size of
        (r, s', rx4, w4, buffer') \<Rightarrow>
          (r, w4, Some (c\<lparr>hap_session := Some s', crypto_rx := rx4\<rparr>), buffer'))"
proof -
  have 1: "recv_len_header (crypto_rx c) w = (None, crypto_rx c, w)"
    using rx(1) by (simp add: recv_len_header_full)
  have 2: "alloc_encrypted block_max (crypto_rx c) w buffer_size = (None, crypto_rx c, w)"
    using rx(2) by (simp add: alloc_encrypted_def)
  have 3: "recv_encrypted (crypto_rx c) w =
      (None, (crypto_rx c)\<lparr>encrypted := Some (write_at buf k [b]),
                          encrypted_received := k + 1\<rparr>, w\<lparr>recv_script := es\<rparr>)"
    using rx w
    by (subst recv_encrypted_Got[where bs = "[b]" and w' = "w\<lparr>recv_script := es\<rparr>"])
       (simp_all add: recv_one_byte recv_encrypted_full)
  show ?thesis
    using c 1 2 3 by (simp add: rtsp_crypto_read_block_def)
qed

lemma write_at_append_one:
  "k < length buf \<Longrightarrow> take (Suc k) (write_at buf k [b]) = take k buf @ [b]"
  by (simp add: write_at_def min_def)

lemma write_at_last_one:
  "Suc k = length buf \<Longrightarrow> write_at buf k [b] = take k buf @ [b]"
  by (simp add: write_at_def)

lemma trickle_payload:
  "hap_session c = Some s \<Longrightarrow> encrypted_mode c \<Longrightarrow>
   2 \<le> len_received (crypto_rx c) \<Longrightarrow> encrypted (crypto_rx c) = Some buf \<Longrightarrow>
   length buf = encrypted_len (crypto_rx c) \<Longrightarrow> encrypted_received (crypto_rx c) = k \<Longrightarrow>
   k + length bs = encrypted_len (crypto_rx c) \<Longrightarrow> bs \<noteq> [] \<Longrightarrow>
   recv_script w = trickle bs @ es \<Longrightarrow>
   read_calls block_max a (length bs) w (Some c) buffer buffer_size =
     (case decrypt_block a s
             ((crypto_rx c)\<lparr>encrypted := Some (take k buf @ bs),
                              encrypted_received := k + length bs\<rparr>)
             (w\<lparr>recv_script := es\<rparr>) buffer buffer_size of
        (r, s', rx4, w4, buffer') \<Rightarrow>
          (replicate (length bs - 1) 0 @ [r], w4,
           Some (c\<lparr>hap_session := Some s', crypto_rx := rx4\<rparr>), buffer'))"
proof (induction bs arbitrary: c k buf w rule: trickle.induct)
  case 1
  then show ?case by simp
next
  case (2 b)
  have k: "k + 1 = encrypted_len (crypto_rx c)" using 2(7) by simp
  have w: "recv_script w = Data [b] # es" using 2(9) by simp
  have wa: "write_at buf k [b] = take k buf @ [b]"
    using 2(5) k by (simp add: write_at_last_one)
  show ?case
    using read_block_last_byte[OF 2(1,2,3,4,6) k w, of block_max a buffer buffer_size]
    by (simp add: wa split: prod.splits)
next
  case (3 b v va)
  let ?bs = "v # va"
  have k: "k + 1 < encrypted_len (crypto_rx c)" using 3(8) by simp
  have w: "recv_script w = Data [b] # WouldBlock # (trickle ?bs @ es)" using 3(10) by simp
  let ?buf = "write_at buf k [b]"
  let ?c = "c\<lparr>crypto_rx := (crypto_rx c)\<lparr>encrypted := Some ?buf,
                                            encrypted_received := k + 1\<rparr>\<rparr>"
  let ?w = "w\<lparr>recv_script := trickle ?bs @ es\<rparr>"
  have first: "rtsp_crypto_read_block block_max a w (Some c) buffer buffer_size =
      (0, ?w, Some ?c, buffer)"
    by (rule read_block_payload_byte[OF 3(2,3,4,5,7) k w])
  have kl: "k < length buf" using 3(6) k by simp
  have len: "length ?buf = encrypted_len (crypto_rx ?c)"
    using 3(6) kl by (simp add: write_at_length)
  have ih: "read_calls block_max a (length ?bs) ?w (Some ?c) buffer buffer_size =
     (case decrypt_block a s
             ((crypto_rx ?c)\<lparr>encrypted := Some (take (k + 1) ?buf @ ?bs),
                              encrypted_received := k + 1 + length ?bs\<rparr>)
             (?w\<lparr>recv_script := es\<rparr>) buffer buffer_size of
        (r, s', rx4, w4, buffer') \<Rightarrow>
          (replicate (length ?bs - 1) 0 @ [r], w4,
           Some (?c\<lparr>hap_session := Some s', crypto_rx := rx4\<rparr>), buffer'))"
    using 3(2,3,4,8) len by (intro 3(1)) simp_all
  have t: "take (k + 1) ?buf @ ?bs = take k buf @ b # ?bs"
    using write_at_append_one[OF kl, of b] by simp
  show ?case
    using first ih t by (simp split: prod.splits)
qed

text \<open>
  C2. A frame with a valid length header, delivered one byte per call with nothing to
  read after each byte, takes as many calls as it has bytes: every call but the last
  returns 0 (no progress yet), and the last call returns what the single call on the
  whole frame returns, with the same world, the same connection (inbound counter and
  partial-read state) and the same buffer.
\<close>

theorem one_byte_per_call_equals_single_call:
  assumes "hap_session c = Some s" and "encrypted_mode c"
    and "len_received (crypto_rx c) = 0" and "encrypted (crypto_rx c) = None"
    and "length (len_buf (crypto_rx c)) = 2"
    and "malloc_ok w"
    and "0 < decode_block_len [h0, h1]" and "decode_block_len [h0, h1] \<le> block_max"
    and "decode_block_len [h0, h1] \<le> buffer_size"
    and "length ct = decode_block_len [h0, h1] + 16"
  shows "read_calls block_max a (length (h0 # h1 # ct))
           (w\<lparr>recv_script := trickle (h0 # h1 # ct) @ es\<rparr>) (Some c) buffer buffer_size =
         (case rtsp_crypto_read_block block_max a (w\<lparr>recv_script := Data (h0 # h1 # ct) # es\<rparr>)
                 (Some c) buffer buffer_size of
            (r, fin) \<Rightarrow> (replicate (length (h0 # h1 # ct) - 1) 0 @ [r], fin))"
proof -
  define L where "L = decode_block_len [h0, h1]"
  note L = assms(7-10)[folded L_def]
  obtain x xs where ct: "ct = x # xs" using L(4) by (cases ct) auto
  obtain l0 l1 where lb: "len_buf (crypto_rx c) = [l0, l1]"
    using assms(5) by (cases "len_buf (crypto_rx c)"; cases "tl (len_buf (crypto_rx c))") auto
  let ?w0 = "w\<lparr>recv_script := trickle (h0 # h1 # ct) @ es\<rparr>"
  let ?w1 = "w\<lparr>recv_script := trickle (h1 # ct) @ es\<rparr>"
  let ?c1 = "c\<lparr>crypto_rx := (crypto_rx c)\<lparr>len_buf := [h0, l1], len_received := 1\<rparr>\<rparr>"
  have s0: "recv_script ?w0 = Data [h0] # WouldBlock # (trickle (h1 # ct) @ es)"
    by (simp add: ct)
  have call1: "rtsp_crypto_read_block block_max a ?w0 (Some c) buffer buffer_size =
      (0, ?w1, Some ?c1, buffer)"
    using read_block_header_byte1[OF assms(1,2,3) s0, of block_max a buffer buffer_size]
    by (simp add: lb write_at_def)
  let ?w2 = "w\<lparr>malloc_script := tl (malloc_script w), mallocs := Suc (mallocs w),
              live_blocks := Suc (live_blocks w), recv_script := trickle ct @ es\<rparr>"
  let ?rx2 = "(crypto_rx c)\<lparr>len_buf := [h0, h1], len_received := 2, block_len := L,
                 encrypted_len := L + 16, encrypted_received := 0,
                 encrypted := Some (replicate (L + 16) 0)\<rparr>"
  let ?c2 = "c\<lparr>crypto_rx := ?rx2\<rparr>"
  have s1: "recv_script ?w1 = Data [h1] # WouldBlock # (trickle ct @ es)"
    by (simp add: ct)
  have d1: "decode_block_len (write_at (len_buf (crypto_rx ?c1)) 1 [h1]) = L"
    by (simp add: write_at_def L_def)
  have call2: "rtsp_crypto_read_block block_max a ?w1 (Some ?c1) buffer buffer_size =
      (0, ?w2, Some ?c2, buffer)"
    using read_block_header_byte2[of ?c1 s ?w1 h1 "trickle ct @ es" L block_max buffer_size a buffer]
      assms(1,2,4,6) s1 d1 L
    by (simp add: malloc_ok_def write_at_def)
  have rest: "read_calls block_max a (length ct) ?w2 (Some ?c2) buffer buffer_size =
     (case decrypt_block a s
             ((crypto_rx ?c2)\<lparr>encrypted := Some (take 0 (replicate (L + 16) 0) @ ct),
                              encrypted_received := 0 + length ct\<rparr>)
             (?w2\<lparr>recv_script := es\<rparr>) buffer buffer_size of
        (r, s', rx4, w4, buffer') \<Rightarrow>
          (replicate (length ct - 1) 0 @ [r], w4,
           Some (?c2\<lparr>hap_session := Some s', crypto_rx := rx4\<rparr>), buffer'))"
    using assms(1,2) L(4) ct by (intro trickle_payload) simp_all
  let ?wa = "w\<lparr>recv_script := Data (h0 # h1 # ct) # es\<rparr>"
  have single: "rtsp_crypto_read_block block_max a ?wa (Some c) buffer buffer_size =
     (case decrypt_block a s
             ((crypto_rx c)\<lparr>len_buf := [h0, h1], len_received := 2, block_len := L,
                encrypted_len := L + 16, encrypted := Some ct, encrypted_received := L + 16\<rparr>)
             (?wa\<lparr>malloc_script := tl (malloc_script ?wa), mallocs := Suc (mallocs ?wa),
                live_blocks := Suc (live_blocks ?wa), recv_script := es\<rparr>)
             buffer buffer_size of
        (r, s', rx4, w4, buffer') \<Rightarrow>
          (r, w4, Some (c\<lparr>hap_session := Some s', crypto_rx := rx4\<rparr>), buffer'))"
    using assms(6) L
    by (intro read_block_one_chunk[OF assms(1,2,3,4,5)]) (simp_all add: malloc_ok_def L_def)
  have rxeq: "(crypto_rx ?c2)\<lparr>encrypted := Some (take 0 (replicate (L + 16) 0) @ ct),
                              encrypted_received := 0 + length ct\<rparr> =
      (crypto_rx c)\<lparr>len_buf := [h0, h1], len_received := 2, block_len := L,
                encrypted_len := L + 16, encrypted := Some ct, encrypted_received := L + 16\<rparr>"
    using L(4) by (cases "crypto_rx c") simp
  have weq: "?w2\<lparr>recv_script := es\<rparr> =
      ?wa\<lparr>malloc_script := tl (malloc_script ?wa), mallocs := Suc (mallocs ?wa),
                live_blocks := Suc (live_blocks ?wa), recv_script := es\<rparr>"
    by (cases w) simp
  have n: "length (h0 # h1 # ct) = Suc (Suc (length ct))" by simp
  have two: "read_calls block_max a (Suc (Suc (length ct))) ?w0 (Some c) buffer buffer_size =
      (case read_calls block_max a (length ct) ?w2 (Some ?c2) buffer buffer_size of
         (rs, fin) \<Rightarrow> (0 # 0 # rs, fin))"
    apply (subst read_calls.simps)
    apply (subst call1)
    apply (simp only: prod.case)
    apply (subst read_calls.simps)
    apply (subst call2)
    apply (simp split: prod.splits)
    done
  show ?thesis
    unfolding n two rest single rxeq weq
    by (simp add: ct split: prod.splits)
qed

theorem one_byte_per_call_equals_single_call_witness:
  "hap_session demo_conn = Some demo_session \<and>
   encrypted_mode demo_conn \<and>
   len_received (crypto_rx demo_conn) = 0 \<and>
   encrypted (crypto_rx demo_conn) = None \<and>
   length (len_buf (crypto_rx demo_conn)) = 2 \<and>
   malloc_ok quiet_world \<and>
   0 < decode_block_len [2, 0] \<and>
   decode_block_len [2, 0] \<le> 1024 \<and>
   decode_block_len [2, 0] \<le> 16 \<and>
   length ([65, 96, 0, 0, 0, 0, 0, 0, 0, 0, 0, 0, 0, 0, 0, 0, 0, 172] :: byte list) = decode_block_len [2, 0] + 16 \<and>
   read_calls 1024 xor_aead (length (2 # 0 # [65, 96, 0, 0, 0, 0, 0, 0, 0, 0, 0, 0, 0, 0, 0, 0, 0, 172] :: byte list))
       (quiet_world\<lparr>recv_script := trickle (2 # 0 # [65, 96, 0, 0, 0, 0, 0, 0, 0, 0, 0, 0, 0, 0, 0, 0, 0, 172]) @ []\<rparr>)
       (Some demo_conn) (replicate 16 0) 16 =
     (case rtsp_crypto_read_block 1024 xor_aead
             (quiet_world\<lparr>recv_script := Data (2 # 0 # [65, 96, 0, 0, 0, 0, 0, 0, 0, 0, 0, 0, 0, 0, 0, 0, 0, 172]) # []\<rparr>)
             (Some demo_conn) (replicate 16 0) 16 of
        (r, fin) \<Rightarrow> (replicate (length (2 # 0 # [65, 96, 0, 0, 0, 0, 0, 0, 0, 0, 0, 0, 0, 0, 0, 0, 0, 172] :: byte list) - 1) 0 @ [r], fin)) \<and>
   rtsp_crypto_read_block 1024 xor_aead
       (quiet_world\<lparr>recv_script := Data (2 # 0 # [65, 96, 0, 0, 0, 0, 0, 0, 0, 0, 0, 0, 0, 0, 0, 0, 0, 172]) # []\<rparr>)
       (Some demo_conn) (replicate 16 0) 16 =
     (2, quiet_world\<lparr>mallocs := 1\<rparr>,
      Some (demo_conn\<lparr>hap_session := Some (demo_session\<lparr>decrypt_nonce := 42\<rparr>),
                      crypto_rx := idle_rx\<lparr>len_buf := [2, 0]\<rparr>\<rparr>),
      [72, 105] @ replicate 14 0)"
proof -
  have c1: "hap_session demo_conn = Some demo_session"
    by (simp add: demo_conn_def)
  have c2: "encrypted_mode demo_conn"
    by (simp add: demo_conn_def)
  have r1: "len_received (crypto_rx demo_conn) = 0"
    by (simp add: demo_conn_def idle_rx_def)
  have r2: "encrypted (crypto_rx demo_conn) = None"
    by (simp add: demo_conn_def idle_rx_def)
  have r3: "length (len_buf (crypto_rx demo_conn)) = 2"
    by (simp add: demo_conn_def idle_rx_def)
  have m1: "malloc_ok quiet_world"
    by (simp add: malloc_ok_def quiet_world_def)
  have l1: "0 < decode_block_len [2, 0]"
    by (simp add: decode_block_len_def)
  have l2: "decode_block_len [2, 0] \<le> 1024"
    by (simp add: decode_block_len_def)
  have l3: "decode_block_len [2, 0] \<le> 16"
    by (simp add: decode_block_len_def)
  have l4: "length ([65, 96, 0, 0, 0, 0, 0, 0, 0, 0, 0, 0, 0, 0, 0, 0, 0, 172] :: byte list) = decode_block_len [2, 0] + 16"
    by (simp add: decode_block_len_def)
  have ev: "rtsp_crypto_read_block 1024 xor_aead
       (quiet_world\<lparr>recv_script := Data (2 # 0 # [65, 96, 0, 0, 0, 0, 0, 0, 0, 0, 0, 0, 0, 0, 0, 0, 0, 172]) # []\<rparr>)
       (Some demo_conn) (replicate 16 0) 16 =
     (2, quiet_world\<lparr>mallocs := 1\<rparr>,
      Some (demo_conn\<lparr>hap_session := Some (demo_session\<lparr>decrypt_nonce := 42\<rparr>),
                      crypto_rx := idle_rx\<lparr>len_buf := [2, 0]\<rparr>\<rparr>),
      [72, 105] @ replicate 14 0)"
    by code_simp
  note t = one_byte_per_call_equals_single_call[OF c1 c2 r1 r2 r3 m1 l1 l2 l3 l4,
      where a = xor_aead and es = "[]" and buffer = "replicate 16 0"]
  show ?thesis
    using t ev c1 c2 r1 r2 r3 m1 l1 l2 l3 l4 by blast
qed

text \<open>
  C7 (as amended). The example request has 59 bytes; parsed with that length it gives
  method \<open>SETUP\<close>, path \<open>/stream\<close>, sequence number 3, content length 5 and a body
  view of the 5 bytes \<open>HELLO\<close> at offset 54, right after the blank-line terminator
  found at offset 50 (\<open>59 - 50 - 4 = 5\<close>). With six more bytes in the buffer the body
  view has 11 bytes while the declared content length is still 5.
\<close>

theorem request_parse_example:
  "rtsp_request_parse cap
     (''SETUP /stream RTSP/1.0'' @ crlf @ ''CSeq: 3'' @ crlf @ ''Content-Length: 5'' @ crlf @
      crlf @ ''HELLO'') 59 =
     Some \<lparr>req_method = ''SETUP'', path = ''/stream'', cseq = 3, content_length = 5,
           content_type = [], body = Some 54, body_len = 5\<rparr> \<and>
   length (''SETUP /stream RTSP/1.0'' @ crlf @ ''CSeq: 3'' @ crlf @ ''Content-Length: 5'' @ crlf @
      crlf @ ''HELLO'') = 59 \<and>
   rtsp_find_header_end
     (''SETUP /stream RTSP/1.0'' @ crlf @ ''CSeq: 3'' @ crlf @ ''Content-Length: 5'' @ crlf @
      crlf @ ''HELLO'') 59 = Some 50 \<and>
   take 5 (drop 54 (''SETUP /stream RTSP/1.0'' @ crlf @ ''CSeq: 3'' @ crlf @
      ''Content-Length: 5'' @ crlf @ crlf @ ''HELLO'')) = ''HELLO'' \<and>
   rtsp_request_parse cap
     (''SETUP /stream RTSP/1.0'' @ crlf @ ''CSeq: 3'' @ crlf @ ''Content-Length: 5'' @ crlf @
      crlf @ ''HELLO WORLD'') 65 =
     Some \<lparr>req_method = ''SETUP'', path = ''/stream'', cseq = 3, content_length = 5,
           content_type = [], body = Some 54, body_len = 11\<rparr>"
  by (intro conjI) code_simp+

text \<open>
  C7, as stated, gives the example request a length of 27 bytes: the request has 59
  bytes, and parsing its first 27 bytes fails, since they hold no blank-line terminator.
\<close>

theorem request_parse_length_27_fails:
  "length (''SETUP /stream RTSP/1.0'' @ crlf @ ''CSeq: 3'' @ crlf @ ''Content-Length: 5'' @ crlf @
      crlf @ ''HELLO'') = 59 \<and>
   rtsp_request_parse 64
     (''SETUP /stream RTSP/1.0'' @ crlf @ ''CSeq: 3'' @ crlf @ ''Content-Length: 5'' @ crlf @
      crlf @ ''HELLO'') 27 = None \<and>
   rtsp_find_header_end
     (''SETUP /stream RTSP/1.0'' @ crlf @ ''CSeq: 3'' @ crlf @ ''Content-Length: 5'' @ crlf @
      crlf @ ''HELLO'') 27 = None"
  by (intro conjI) code_simp+

declare find_header_lines.simps [simp del]

lemma strstr_line_end:
  "strstr l crlf = None \<Longrightarrow> strstr (l @ crlf @ rest) crlf = Some (length l)"
proof (induction l)
  case Nil
  show ?case by (simp add: crlf_def)
next
  case (Cons c cs)
  from Cons.prems have np: "\<not> prefix crlf (c # cs)" and n: "strstr cs crlf = None"
    by (auto split: if_splits)
  have "\<not> prefix crlf (c # cs @ crlf @ rest)"
    using np by (cases cs) (auto simp: crlf_def)
  with Cons.IH[OF n] show ?case by simp
qed

lemma strstr_after_plain:
  "CR \<notin> set h \<Longrightarrow> strstr (h @ post) crlf = Some i \<Longrightarrow> length h \<le> i"
proof (induction h arbitrary: i)
  case Nil
  show ?case by simp
next
  case (Cons c cs)
  then have "\<not> prefix crlf (c # cs @ post)" by (auto simp: crlf_def)
  with Cons.prems obtain j where "strstr (cs @ post) crlf = Some j" "i = Suc j" by auto
  with Cons.IH[of j] Cons.prems(1) show ?case by simp
qed

lemma find_header_lines_skip:
  assumes "strstr l crlf = None"
    and "\<not> (length key \<le> length l \<and> strncasecmp_eq l key (length key))"
  shows "find_header_lines (l @ crlf @ rest) key = find_header_lines rest key"
proof -
  define p where "p = l @ crlf @ rest"
  have ne: "p \<noteq> []" by (simp add: p_def crlf_def)
  have se: "strstr p crlf = Some (length l)"
    unfolding p_def by (rule strstr_line_end[OF assms(1)])
  have "strncasecmp_eq p key (length key) = strncasecmp_eq l key (length key)"
    if "length key \<le> length l" using that by (simp add: strncasecmp_eq_def p_def)
  with assms(2) have cmp: "\<not> (length key \<le> length l \<and> strncasecmp_eq p key (length key))"
    by blast
  have dr: "drop (Suc (Suc (length l))) p = rest" by (simp add: p_def crlf_def)
  have "find_header_lines p key = find_header_lines rest key"
    using cmp by (subst find_header_lines.simps) (auto simp add: ne se dr Let_def)
  then show ?thesis by (simp add: p_def)
qed

lemma find_header_lines_skip_all:
  assumes "\<forall>l \<in> set ls. strstr l crlf = None \<and>
             \<not> (length key \<le> length l \<and> strncasecmp_eq l key (length key))"
  shows "find_header_lines (concat (map (\<lambda>l. l @ crlf) ls) @ rest) key =
         find_header_lines rest key"
  using assms
proof (induction ls)
  case Nil
  show ?case by simp
next
  case (Cons l ls)
  then show ?case
    using find_header_lines_skip[of l key "concat (map (\<lambda>l. l @ crlf) ls) @ rest"]
    by simp
qed

lemma find_header_lines_match:
  assumes "CR \<notin> set h" and "length key \<le> length h" and "h \<noteq> []"
    and "strncasecmp_eq h key (length key)"
  shows "find_header_lines (h @ post) key =
         Some (dropWhile (\<lambda>c. c = CHR '' '' \<or> c = CHR 0x09) (drop (length key) (h @ post)))"
proof -
  define p where "p = h @ post"
  have ne: "p \<noteq> []" using assms(3) by (simp add: p_def)
  have le: "length key \<le> (case strstr p crlf of None \<Rightarrow> length p | Some i \<Rightarrow> i)"
    using strstr_after_plain[OF assms(1), of post] assms(2)
    by (auto simp: p_def split: option.splits intro: order_trans)
  have cmp: "strncasecmp_eq p key (length key)"
    using assms(2,4) by (simp add: strncasecmp_eq_def p_def)
  have "find_header_lines p key =
         Some (dropWhile (\<lambda>c. c = CHR '' '' \<or> c = CHR 0x09) (drop (length key) p))"
    using le by (subst find_header_lines.simps) (simp add: ne cmp Let_def)
  then show ?thesis by (simp add: p_def)
qed

lemma atoi_seven:
  assumes "post = [] \<or> hd post = CR"
  shows "atoi (CHR ''7'' # post) = 7"
proof -
  have a: "\<not> isspace (CHR ''7'')" "isdigit (CHR ''7'')" "\<not> isdigit CR"
    "(of_char (CHR ''7'') :: int) - 48 = 7"
    by code_simp+
  show ?thesis
    using assms a by (cases post) (auto simp: atoi_def)
qed

lemma cstring_plain: "NUL \<notin> set s \<Longrightarrow> cstring s = s"
  by (auto simp add: cstring_def takeWhile_eq_all_conv)

lemma cseq_spellings:
  assumes "h = ''cseq: 7'' \<or> h = ''CSeq: 7'' \<or> h = ''CSEQ:7''"
  shows "CR \<notin> set h" and "length ''CSeq:'' \<le> length h" and "h \<noteq> []"
    and "strncasecmp_eq h ''CSeq:'' (length ''CSeq:'')"
    and "dropWhile (\<lambda>c. c = CHR '' '' \<or> c = CHR 0x09) (drop (length ''CSeq:'') (h @ post)) =
         CHR ''7'' # post"
proof -
  have c: "strncasecmp_eq ''cseq: 7'' ''CSeq:'' (length ''CSeq:'')"
    "strncasecmp_eq ''CSeq: 7'' ''CSeq:'' (length ''CSeq:'')"
    "strncasecmp_eq ''CSEQ:7'' ''CSeq:'' (length ''CSeq:'')"
    by code_simp+
  show "CR \<notin> set h" using assms by auto
  show "length ''CSeq:'' \<le> length h" using assms by auto
  show "h \<noteq> []" using assms by auto
  show "strncasecmp_eq h ''CSeq:'' (length ''CSeq:'')" using assms c by blast
  show "dropWhile (\<lambda>c. c = CHR '' '' \<or> c = CHR 0x09) (drop (length ''CSeq:'') (h @ post)) =
         CHR ''7'' # post"
    using assms by auto
qed


lemma sscanf_conversions: "\<not> fst (if c then (1 :: int, x) else (2, y)) < 1"
  by simp

lemma sscanf_finds_method:
  assumes "dropWhile isspace s \<noteq> []"
  shows "\<not> fst (sscanf_method_path s) < 1"
  unfolding sscanf_method_path_def Let_def
  by (simp only: assms if_False) (rule sscanf_conversions)

text \<open>
  C8 (as amended). Let the header block (the bytes before the blank-line terminator)
  be shorter than 1024 bytes and free of NUL bytes, let the request line hold a
  token, and let the first line of the block that begins with \<open>cseq:\<close> in any letter
  case be the sequence-number header written \<open>cseq: 7\<close>, \<open>CSeq: 7\<close> or \<open>CSEQ:7\<close>:
  then \<^verbatim>\<open>rtsp_request_parse\<close> succeeds with sequence number 7.
\<close>

theorem cseq_lookup_ignores_case:
  assumes "rtsp_find_header_end data len = Some e" and "e < 1024"
    and "NUL \<notin> set (take e data)"
    and "dropWhile isspace (cstring data) \<noteq> []"
    and "take e data = concat (map (\<lambda>l. l @ crlf) ls) @ h @ post"
    and "\<forall>l \<in> set ls. strstr l crlf = None \<and>
           \<not> (length ''CSeq:'' \<le> length l \<and> strncasecmp_eq l ''CSeq:'' (length ''CSeq:''))"
    and "h = ''cseq: 7'' \<or> h = ''CSeq: 7'' \<or> h = ''CSEQ:7''"
    and "post = [] \<or> hd post = CR"
  shows "\<exists>req. rtsp_request_parse cap data len = Some req \<and> cseq req = 7"
proof -
  have len: "len \<noteq> 0" using assms(1) by (cases len) (auto simp: rtsp_find_header_end_def)
  have hs: "cstring (take e data) = concat (map (\<lambda>l. l @ crlf) ls) @ h @ post"
    using assms(3,5) by (simp add: cstring_plain)
  note sp = cseq_spellings[OF assms(7)]
  have "find_header_lines (concat (map (\<lambda>l. l @ crlf) ls) @ h @ post) ''CSeq:'' =
      find_header_lines (h @ post) ''CSeq:''"
    by (rule find_header_lines_skip_all[OF assms(6)])
  also have "\<dots> = Some (dropWhile (\<lambda>c. c = CHR '' '' \<or> c = CHR 0x09)
                        (drop (length ''CSeq:'') (h @ post)))"
    by (rule find_header_lines_match[OF sp(1,2,3,4)])
  also have "\<dots> = Some (CHR ''7'' # post)" by (simp only: sp(5))
  finally have f: "find_header_ci (cstring (take e data)) ''CSeq:'' = Some (CHR ''7'' # post)"
    by (simp add: find_header_ci_def hs)
  obtain n m p where sc: "sscanf_method_path (cstring data) = (n, m, p)"
    by (cases "sscanf_method_path (cstring data)") auto
  have n: "\<not> n < 1"
    using sscanf_finds_method[OF assms(4)] sc by simp
  show ?thesis
    using assms(1,2) len sc n f atoi_seven[OF assms(8)]
    by (simp add: rtsp_request_parse_def Let_def split: prod.splits)
qed

theorem cseq_lookup_ignores_case_witness:
  "rtsp_find_header_end
     (''OPTIONS * RTSP/1.0'' @ crlf @ ''User-Agent: x'' @ crlf @ ''CSEQ:7'' @ crlf @
      ''Session: 1'' @ crlf @ crlf) 57 = Some 53 \<and>
   (53 :: nat) < 1024 \<and>
   NUL \<notin> set (take 53 (''OPTIONS * RTSP/1.0'' @ crlf @ ''User-Agent: x'' @ crlf @ ''CSEQ:7'' @
      crlf @ ''Session: 1'' @ crlf @ crlf)) \<and>
   dropWhile isspace (cstring (''OPTIONS * RTSP/1.0'' @ crlf @ ''User-Agent: x'' @ crlf @
      ''CSEQ:7'' @ crlf @ ''Session: 1'' @ crlf @ crlf)) \<noteq> [] \<and>
   take 53 (''OPTIONS * RTSP/1.0'' @ crlf @ ''User-Agent: x'' @ crlf @ ''CSEQ:7'' @ crlf @
      ''Session: 1'' @ crlf @ crlf) =
     concat (map (\<lambda>l. l @ crlf) [''OPTIONS * RTSP/1.0'', ''User-Agent: x'']) @ ''CSEQ:7'' @
     (crlf @ ''Session: 1'') \<and>
   strstr ''OPTIONS * RTSP/1.0'' crlf = None \<and>
   \<not> (length ''CSeq:'' \<le> length ''OPTIONS * RTSP/1.0'' \<and>
      strncasecmp_eq ''OPTIONS * RTSP/1.0'' ''CSeq:'' (length ''CSeq:'')) \<and>
   strstr ''User-Agent: x'' crlf = None \<and>
   \<not> (length ''CSeq:'' \<le> length ''User-Agent: x'' \<and>
      strncasecmp_eq ''User-Agent: x'' ''CSeq:'' (length ''CSeq:'')) \<and>
   (''CSEQ:7'' = ''cseq: 7'' \<or> ''CSEQ:7'' = ''CSeq: 7'' \<or> ''CSEQ:7'' = ''CSEQ:7'') \<and>
   (crlf @ ''Session: 1'' = [] \<or> hd (crlf @ ''Session: 1'') = CR) \<and>
   (\<exists>req. rtsp_request_parse 64
           (''OPTIONS * RTSP/1.0'' @ crlf @ ''User-Agent: x'' @ crlf @ ''CSEQ:7'' @ crlf @
            ''Session: 1'' @ crlf @ crlf) 57 = Some req \<and> cseq req = 7)"
proof -
  let ?d = "''OPTIONS * RTSP/1.0'' @ crlf @ ''User-Agent: x'' @ crlf @ ''CSEQ:7'' @ crlf @
      ''Session: 1'' @ crlf @ crlf"
  have h1: "rtsp_find_header_end ?d 57 = Some 53" by code_simp
  have h2: "(53 :: nat) < 1024" by simp
  have h3: "NUL \<notin> set (take 53 ?d)" by code_simp
  have h4: "dropWhile isspace (cstring ?d) \<noteq> []" by code_simp
  have h5: "take 53 ?d =
     concat (map (\<lambda>l. l @ crlf) [''OPTIONS * RTSP/1.0'', ''User-Agent: x'']) @ ''CSEQ:7'' @
     (crlf @ ''Session: 1'')" by code_simp
  have l1: "strstr ''OPTIONS * RTSP/1.0'' crlf = None" by code_simp
  have l2: "\<not> (length ''CSeq:'' \<le> length ''OPTIONS * RTSP/1.0'' \<and>
      strncasecmp_eq ''OPTIONS * RTSP/1.0'' ''CSeq:'' (length ''CSeq:''))" by code_simp
  have l3: "strstr ''User-Agent: x'' crlf = None" by code_simp
  have l4: "\<not> (length ''CSeq:'' \<le> length ''User-Agent: x'' \<and>
      strncasecmp_eq ''User-Agent: x'' ''CSeq:'' (length ''CSeq:''))" by code_simp
  have h6: "\<forall>l \<in> set [''OPTIONS * RTSP/1.0'', ''User-Agent: x'']. strstr l crlf = None \<and>
           \<not> (length ''CSeq:'' \<le> length l \<and> strncasecmp_eq l ''CSeq:'' (length ''CSeq:''))"
    using l1 l2 l3 l4 by simp
  have h7: "''CSEQ:7'' = ''cseq: 7'' \<or> ''CSEQ:7'' = ''CSeq: 7'' \<or> ''CSEQ:7'' = ''CSEQ:7''"
    by simp
  have h8: "crlf @ ''Session: 1'' = [] \<or> hd (crlf @ ''Session: 1'') = CR"
    by (simp add: crlf_def)
  note t = cseq_lookup_ignores_case[OF h1 h2 h3 h4 h5 h6 h7 h8, of 64]
  show ?thesis
    using t h1 h2 h3 h4 h5 l1 l2 l3 l4 h7 h8 by blast
qed

lemma show_nat_length: "0 < k \<Longrightarrow> n < 10 ^ k \<Longrightarrow> length (show_nat n) \<le> k"
proof (induction k arbitrary: n)
  case 0
  then show ?case by simp
next
  case (Suc k)
  show ?case
  proof (cases "n < 10")
    case True
    then show ?thesis by (subst show_nat.simps) simp
  next
    case False
    then have k: "0 < k" using Suc.prems(2) by (cases k) auto
    have "n div 10 < 10 ^ k" using Suc.prems(2) by (simp add: less_mult_imp_div_less mult.commute)
    from Suc.IH[OF k this] show ?thesis using False by (subst show_nat.simps) simp
  qed
qed

lemma show_int_length:
  assumes "- (2 ^ 31) \<le> i" "i < 2 ^ 31"
  shows "length (show_int i) \<le> 11"
proof -
  have "nat \<bar>i\<bar> < 10 ^ 10" using assms by simp
  then have "length (show_nat (nat \<bar>i\<bar>)) \<le> 10" by (intro show_nat_length) simp_all
  then show ?thesis by (auto simp: show_int_def abs_if)
qed

lemma show_int_200: "show_int 200 = ''200''"
  by code_simp

lemma response_text_ok:
  "response_text 200 ''OK'' n None body_data 0 =
     ''RTSP/1.0 200 OK'' @ crlf @ ''CSeq: '' @ show_int n @ crlf @
     ''Server: AirTunes/377.40.00'' @ crlf @ crlf"
  by (simp add: response_text_def show_int_200)

text \<open>
  C9. A call of \<open>rtsp_send_response\<close> with status 200, text \<open>OK\<close>, no extra
  headers and a body length of zero, on a connection that is absent or in plain mode,
  whose allocation succeeds and whose socket accepts what it is given, returns 0 and
  has put on the wire exactly the status line, the \<open>CSeq\<close> line with the given number
  in decimal, the \<open>Server: AirTunes/377.40.00\<close> line and the empty line, and nothing
  after them; the response buffer is freed. \<open>rtsp_send_ok\<close> is that call.
\<close>

theorem send_response_ok_plain:
  assumes plain: "case conn of None \<Rightarrow> True | Some c \<Rightarrow> \<not> encrypted_mode c"
    and w: "malloc_ok w" "sends_ok w"
    and n: "- (2 ^ 31) \<le> n" "n < 2 ^ 31"
  shows "(\<exists>w'. rtsp_send_response block_max a w conn 200 ''OK'' n None body_data 0 =
                 Some (0, w', conn) \<and>
               wire w' = wire w @ map of_char
                 (''RTSP/1.0 200 OK'' @ crlf @ ''CSeq: '' @ show_int n @ crlf @
                  ''Server: AirTunes/377.40.00'' @ crlf @ crlf) \<and>
               live_blocks w' = live_blocks w) \<and>
         rtsp_send_ok block_max a w conn n =
           rtsp_send_response block_max a w conn 200 ''OK'' n None None 0"
proof -
  define fm where "fm = ''RTSP/1.0 200 OK'' @ crlf @ ''CSeq: '' @ show_int n @ crlf @
     ''Server: AirTunes/377.40.00'' @ crlf @ crlf"
  have rt: "response_text 200 ''OK'' n None body_data 0 = fm"
    unfolding fm_def by (rule response_text_ok)
  have len: "length fm \<le> 1023"
    using show_int_length[OF n] by (simp add: fm_def crlf_def)
  have hdr: "take (length fm) (take 1023 fm @ [NUL]) = fm"
    using len by simp
  define w1 where "w1 = w\<lparr>malloc_script := tl (malloc_script w), mallocs := Suc (mallocs w),
                        live_blocks := Suc (live_blocks w)\<rparr>"
  have m: "malloc w = (True, w1)"
    unfolding w1_def by (rule malloc_ok_malloc[OF w(1)])
  have s1: "sends_ok w1" using w(2) by (simp add: sends_ok_def w1_def)
  from send_all_sends_ok[OF s1, of "map of_char fm" 0]
  obtain ss where sa: "send_all w1 (map of_char fm) 0 =
      (0, w1\<lparr>send_script := ss, wire := wire w1 @ map of_char fm\<rparr>)"
    by auto
  have np: "\<not> (case conn of Some c \<Rightarrow> encrypted_mode c | None \<Rightarrow> False)"
    using plain by (cases conn) auto
  have body0: "(case body_data of Some b \<Rightarrow> if 0 < (0::nat) then take 0 b else []
                 | None \<Rightarrow> replicate 0 0) = ([] :: byte list)"
    by (cases body_data) auto
  have res: "rtsp_send_response block_max a w conn 200 ''OK'' n None body_data 0 =
      Some (0, free (w1\<lparr>send_script := ss, wire := wire w1 @ map of_char fm\<rparr>)
                 (Some (map of_char fm :: byte list)), conn)"
    unfolding rtsp_send_response_def rt Let_def m
    using len np by (simp add: hdr body0 sa)
  have "wire (free (w1\<lparr>send_script := ss, wire := wire w1 @ map of_char fm\<rparr>)
                 (Some (map of_char fm :: byte list))) = wire w @ map of_char fm"
    by (simp add: w1_def)
  moreover have "live_blocks (free (w1\<lparr>send_script := ss, wire := wire w1 @ map of_char fm\<rparr>)
                 (Some (map of_char fm :: byte list))) = live_blocks w"
    by (simp add: w1_def free_def)
  ultimately show ?thesis
    using res unfolding fm_def rtsp_send_ok_def by blast
qed

theorem send_response_ok_plain_witness:
  "malloc_ok quiet_world \<and> sends_ok quiet_world \<and> - (2 ^ 31) \<le> (3 :: int) \<and>
   (3 :: int) < 2 ^ 31 \<and>
   (\<exists>w'. rtsp_send_response 1024 xor_aead quiet_world None 200 ''OK'' 3 None None 0 =
            Some (0, w', None) \<and>
          wire w' = map of_char
            (''RTSP/1.0 200 OK'' @ crlf @ ''CSeq: 3'' @ crlf @
             ''Server: AirTunes/377.40.00'' @ crlf @ crlf) \<and>
          live_blocks w' = live_blocks quiet_world) \<and>
   rtsp_send_ok 1024 xor_aead quiet_world None 3 =
     rtsp_send_response 1024 xor_aead quiet_world None 200 ''OK'' 3 None None 0"
proof -
  have h1: "case (None :: rtsp_conn option) of None \<Rightarrow> True | Some c \<Rightarrow> \<not> encrypted_mode c"
    by simp
  have h2: "malloc_ok quiet_world" by code_simp
  have h3: "sends_ok quiet_world" by code_simp
  have h4: "- (2 ^ 31) \<le> (3 :: int)" by simp
  have h5: "(3 :: int) < 2 ^ 31" by simp
  have s3: "show_int 3 = ''3''" by code_simp
  have w0: "wire quiet_world = []" by code_simp
  note t = send_response_ok_plain[OF h1 h2 h3 h4 h5, of 1024 xor_aead None]
  show ?thesis
    using t h2 h3 by (simp add: s3 w0)
qed

lemma find_crlfcrlf_unfold:
  "find_crlfcrlf (c # xs) i =
     (if prefix (crlf @ crlf) (c # xs) then Some i else find_crlfcrlf xs (Suc i))"
  by (cases "(c # xs, i)" rule: find_crlfcrlf.cases) (auto simp: crlf_def)

lemma find_crlfcrlf_plain:
  "CR \<notin> set l \<Longrightarrow> find_crlfcrlf (l @ rest) i = find_crlfcrlf rest (i + length l)"
proof (induction l arbitrary: i)
  case Nil
  show ?case by simp
next
  case (Cons c cs)
  then have "\<not> prefix (crlf @ crlf) (c # cs @ rest)" by (auto simp: crlf_def)
  with Cons.IH[of "Suc i"] Cons.prems show ?case
    by (simp add: find_crlfcrlf_unfold del: find_crlfcrlf.simps)
qed

lemma find_crlfcrlf_line_break:
  "x \<noteq> CR \<Longrightarrow> find_crlfcrlf (crlf @ x # rest) i = find_crlfcrlf (x # rest) (i + 2)"
  by (simp add: find_crlfcrlf_unfold crlf_def del: find_crlfcrlf.simps)

lemma find_crlfcrlf_here: "find_crlfcrlf (crlf @ crlf @ rest) i = Some i"
  by (simp add: crlf_def)

lemma strstr_plain_None: "CR \<notin> set s \<Longrightarrow> strstr s crlf = None"
  by (induction s) (auto simp: crlf_def)

lemma find_header_lines_last:
  assumes "strstr p crlf = None" and "\<not> strncasecmp_eq p key (length key)"
  shows "find_header_lines p key = None"
  by (subst find_header_lines.simps) (simp add: assms)

text \<open>
  C8, where the claim as stated fails. \<^verbatim>\<open>rtsp_request_parse\<close> looks the headers up
  in a copy of at most 1023 bytes of the header block: a sequence-number header that
  starts after them is not seen, and the request gets the default number 1. The
  helper \<^verbatim>\<open>rtsp_parse_cseq\<close> searches for \<open>CSeq:\<close> in that letter case only.
\<close>

theorem cseq_beyond_header_copy:
  "map_option cseq
     (rtsp_request_parse 64
        (''OPTIONS * RTSP/1.0'' @ crlf @ ''X-Pad: '' @ replicate 1100 (CHR ''a'') @ crlf @
         ''cseq: 7'' @ crlf @ crlf) 1140) = Some 1 \<and>
   rtsp_parse_cseq (''OPTIONS * RTSP/1.0'' @ crlf @ ''cseq: 7'' @ crlf @ crlf) = 1"
proof -
  define pad where "pad = ''X-Pad: '' @ replicate 1100 (CHR ''a'')"
  define l1 where "l1 = ''OPTIONS * RTSP/1.0''"
  define data where "data = l1 @ crlf @ pad @ crlf @ ''cseq: 7'' @ crlf @ crlf"
  have len: "length data = 1140" "length l1 = 18" "length pad = 1107"
    by (simp_all add: data_def l1_def pad_def crlf_def)
  have cr: "CR \<notin> set l1" "CR \<notin> set pad" "CR \<notin> set ''cseq: 7''"
    by (simp_all add: l1_def pad_def)
  have nul: "NUL \<notin> set data"
    by (simp add: data_def l1_def pad_def crlf_def)
  have pad_hd: "pad = CHR ''X'' # tl pad" by (simp add: pad_def)
  have "find_crlfcrlf data 0 = find_crlfcrlf (crlf @ pad @ crlf @ ''cseq: 7'' @ crlf @ crlf) 18"
    unfolding data_def using find_crlfcrlf_plain[OF cr(1), of _ 0] by (simp add: len)
  also have "\<dots> = find_crlfcrlf (pad @ crlf @ ''cseq: 7'' @ crlf @ crlf) 20"
    by (subst (1 2) pad_hd) (simp add: find_crlfcrlf_line_break del: find_crlfcrlf.simps)
  also have "\<dots> = find_crlfcrlf (crlf @ ''cseq: 7'' @ crlf @ crlf) 1127"
    using find_crlfcrlf_plain[OF cr(2), of _ 20] by (simp add: len)
  also have "\<dots> = find_crlfcrlf (''cseq: 7'' @ crlf @ crlf @ []) 1129"
    using find_crlfcrlf_line_break[of "CHR ''c''" "''seq: 7'' @ crlf @ crlf" 1127]
    by (simp del: find_crlfcrlf.simps)
  also have "\<dots> = find_crlfcrlf (crlf @ crlf @ []) 1136"
    using find_crlfcrlf_plain[OF cr(3), of "crlf @ crlf @ []" 1129]
    by (simp del: find_crlfcrlf.simps)
  also have "\<dots> = Some 1136" by (rule find_crlfcrlf_here)
  finally have fh: "rtsp_find_header_end data 1140 = Some 1136"
    by (simp add: rtsp_find_header_end_def len)
  have "dropWhile isspace (cstring data) \<noteq> []"
    by (simp add: cstring_plain[OF nul]) (simp add: data_def l1_def isspace_def)
  then have sc: "\<not> fst (sscanf_method_path (cstring data)) < 1"
    by (rule sscanf_finds_method)
  have tk: "take 1023 data = l1 @ crlf @ ''X-Pad: '' @ replicate 996 (CHR ''a'')"
    by (simp add: data_def pad_def l1_def crlf_def)
  have nul2: "NUL \<notin> set (take 1023 data)"
    using nul by (auto dest: in_set_takeD)
  have l1a: "strstr l1 crlf = None" by (rule strstr_plain_None[OF cr(1)])
  have l1b: "\<not> (length ''CSeq:'' \<le> length l1 \<and> strncasecmp_eq l1 ''CSeq:'' (length ''CSeq:''))"
    unfolding l1_def by code_simp
  have p1: "strstr (''X-Pad: '' @ replicate 996 (CHR ''a'')) crlf = None"
    by (rule strstr_plain_None) simp
  have p2: "\<not> strncasecmp_eq (''X-Pad: '' @ replicate 996 (CHR ''a'')) ''CSeq:'' (length ''CSeq:'')"
    by (simp add: strncasecmp_eq_def tolower_def)
  have "find_header_lines (take 1023 data) ''CSeq:'' =
        find_header_lines (''X-Pad: '' @ replicate 996 (CHR ''a'')) ''CSeq:''"
    unfolding tk by (rule find_header_lines_skip[OF l1a l1b])
  also have "\<dots> = None" by (rule find_header_lines_last[OF p1 p2])
  finally have hs: "find_header_ci (cstring (take 1023 data)) ''CSeq:'' = None"
    by (simp add: find_header_ci_def cstring_plain[OF nul2])
  have "map_option cseq (rtsp_request_parse 64 data 1140) = Some 1"
    using sc by (auto simp: rtsp_request_parse_def fh hs Let_def split: prod.splits)
  moreover have "rtsp_parse_cseq (''OPTIONS * RTSP/1.0'' @ crlf @ ''cseq: 7'' @ crlf @ crlf) = 1"
    by code_simp
  ultimately show ?thesis
    unfolding data_def l1_def pad_def by simp
qed

end
